(* ===== verification/Prelude.thy ===== *)
theory Prelude
  imports Main "HOL-Library.AList"
begin

text \<open>
  Shared vocabulary of the development: the types that name device paths and task
  identities, Python's exceptions as values, the outcome of a statement sequence that
  may raise after it has already changed the state, and Python's insertion-ordered
  \<open>dict\<close> as an association list (\<open>AList.update\<close> keeps the position of an existing
  key and appends a new one, \<open>AList.delete\<close> removes it, as \<open>d[k] = v\<close> and
  \<open>del d[k]\<close> do). The lemmas here are the dictionary facts every component proof uses;
  they are collected in \<open>dict_simps\<close>.
\<close>

type_synonym path = string
type_synonym tid = nat

text \<open>The exceptions that the modelled code raises or catches.\<close>

datatype py_error =
    KeyError
  | AttributeError
  | ValueError
  | OSError nat
  | DBusException
  | CancelledError
  | RuntimeError

text \<open>
  A Python call either returns or raises; an exception does not roll back what the
  statements before it did, so both branches carry the state reached.
\<close>

datatype 's outcome = Ok 's | Raised py_error 's

primrec state_of :: "'s outcome \<Rightarrow> 's" where
  "state_of (Ok s) = s"
| "state_of (Raised e s) = s"

primrec raised :: "'s outcome \<Rightarrow> py_error option" where
  "raised (Ok s) = None"
| "raised (Raised e s) = Some e"

text \<open>\<open>d.get(k, None)\<close> on a dict whose values are \<open>Optional\<close>: absent and \<open>None\<close> agree.\<close>

definition dict_get :: "('k \<times> 'v option) list \<Rightarrow> 'k \<Rightarrow> 'v option" where
  "dict_get d k = (case map_of d k of None \<Rightarrow> None | Some v \<Rightarrow> v)"

text \<open>\<open>k in d\<close>.\<close>

definition dict_has :: "('k \<times> 'v) list \<Rightarrow> 'k \<Rightarrow> bool" where
  "dict_has d k = (map_of d k \<noteq> None)"

text \<open>Python's \<open>str.startswith\<close>.\<close>

definition starts_with :: "string \<Rightarrow> string \<Rightarrow> bool" where
  "starts_with pre s = (take (length pre) s = pre)"

named_theorems dict_simps "facts on the association-list model of Python dicts"

text \<open>
  Dictionaries are reasoned about through \<open>map_of\<close>; the library's rule that turns
  \<open>map_of d k = Some v\<close> into list membership would undo that, so it is used by name only.
\<close>

declare map_of_eq_Some_iff [simp del]

lemma ball_set_map_of:
  "distinct (map fst d) \<Longrightarrow> (\<forall>(k, v) \<in> set d. P k v) \<longleftrightarrow> (\<forall>k v. map_of d k = Some v \<longrightarrow> P k v)"
proof
  assume "\<forall>(k, v) \<in> set d. P k v"
  then show "\<forall>k v. map_of d k = Some v \<longrightarrow> P k v" by (auto dest: map_of_SomeD)
next
  assume "distinct (map fst d)" and "\<forall>k v. map_of d k = Some v \<longrightarrow> P k v"
  then show "\<forall>(k, v) \<in> set d. P k v" by (auto dest: map_of_is_SomeI)
qed

lemma dict_get_update [dict_simps]:
  "dict_get (AList.update k v d) k' = (if k' = k then v else dict_get d k')"
  by (simp add: dict_get_def update_conv')

lemma dict_get_delete [dict_simps]:
  "dict_get (AList.delete k d) k' = (if k' = k then None else dict_get d k')"
  by (simp add: dict_get_def delete_conv')

lemma dict_has_update [dict_simps]:
  "dict_has (AList.update k v d) k' = (k' = k \<or> dict_has d k')"
  by (simp add: dict_has_def update_conv')

lemma dict_has_delete [dict_simps]:
  "dict_has (AList.delete k d) k' = (k' \<noteq> k \<and> dict_has d k')"
  by (simp add: dict_has_def delete_conv')

lemma map_of_update_dict [dict_simps]:
  "map_of (AList.update k v d) k' = (if k' = k then Some v else map_of d k')"
  by (simp add: update_conv')

lemma map_of_delete_dict [dict_simps]:
  "map_of (AList.delete k d) k' = (if k' = k then None else map_of d k')"
  by (simp add: delete_conv')

lemma dict_get_Some_iff [dict_simps]:
  "dict_get d k = Some v \<longleftrightarrow> map_of d k = Some (Some v)"
  by (simp add: dict_get_def split: option.split)

lemma dict_get_None_iff:
  "dict_get d k = None \<longleftrightarrow> map_of d k = None \<or> map_of d k = Some None"
  by (simp add: dict_get_def split: option.split)

lemma dict_has_iff_key:
  "dict_has d k \<longleftrightarrow> k \<in> fst ` set d"
  by (simp add: dict_has_def map_of_eq_None_iff)

lemma distinct_update_dict [dict_simps]:
  "distinct (map fst d) \<Longrightarrow> distinct (map fst (AList.update k v d))"
  by (rule distinct_update)

lemma distinct_delete_dict [dict_simps]:
  "distinct (map fst d) \<Longrightarrow> distinct (map fst (AList.delete k d))"
  by (rule distinct_delete)

lemma map_outcome_Ok_iff [simp]:
  "map_outcome f r = Ok x \<longleftrightarrow> (\<exists>y. r = Ok y \<and> x = f y)"
  by (cases r) auto

lemma map_outcome_Raised_iff [simp]:
  "map_outcome f r = Raised e x \<longleftrightarrow> (\<exists>y. r = Raised e y \<and> x = f y)"
  by (cases r) auto

lemma state_of_map_outcome [simp]: "state_of (map_outcome f r) = f (state_of r)"
  by (cases r) simp_all

lemma state_of_raised_None:
  "raised r = None \<Longrightarrow> r = Ok (state_of r)"
  by (cases r) simp_all

end
