(* ===== verification/Finder.thy ===== *)
theory Finder
  imports Prelude
begin

text \<open>
  The device classifier and hotplug watcher, class \<open>GamepadsFinder\<close> of
  src/gamepad-lock-inhibit.py. A udev device is a record of the attributes the class
  reads. \<open>discover\<close> is the snapshot enumeration of \<open>__init__\<close>
  (\<open>context.list_devices(subsystem=..., ID_INPUT_JOYSTICK=1, sys_name='event*')\<close>);
  \<open>on_new_event\<close> is the callback \<open>_on_new_event\<close> run by the observer thread on every
  netlink event of the \<open>input\<close> subsystem, returning the callback it hands to the event
  loop with \<open>call_soon_threadsafe\<close>; \<open>observe\<close> is the observer thread over a stream of
  netlink events, which ends at the first exception a callback raises (pyudev's
  \<open>MonitorObserver.run\<close> does not catch it) The finder object itself, with \<open>start()\<close>,
  \<open>stop()\<close> and the queue of callbacks handed to the loop, is \<open>gamepads_finder\<close>.
\<close>

record udev_device =
  action :: string
  subsystem :: string
  properties :: "(string \<times> string) list"
  sys_name :: string
  device_node :: path

text \<open>What \<open>_on_new_event\<close> schedules on the event loop.\<close>

datatype hotplug = HAdd path | HRemove path

definition SUBSYSTEM :: string where
  "SUBSYSTEM = ''input''"

definition SYS_NAME_PREFIX :: string where
  "SYS_NAME_PREFIX = ''event''"

text \<open>
  \<open>device.properties.asbool(name)\<close>: \<open>KeyError\<close> when the property is absent, the
  value \<open>'1'\<close> or \<open>'0'\<close> as a boolean, \<open>ValueError\<close> for any other value.
\<close>

definition asbool :: "(string \<times> string) list \<Rightarrow> string \<Rightarrow> py_error + bool" where
  "asbool props name =
     (case map_of props name of
        None \<Rightarrow> Inl KeyError
      | Some v \<Rightarrow> if v = ''1'' then Inr True else if v = ''0'' then Inr False else Inl ValueError)"

definition get_device_path :: "udev_device \<Rightarrow> path" where
  "get_device_path d = device_node d"

text \<open>
  The enumeration filter of \<open>list_devices\<close>: the subsystem, the property matched
  against the value \<open>1\<close>, and the glob \<open>event*\<close> on the sys name.
\<close>

definition listed :: "udev_device \<Rightarrow> bool" where
  "listed d \<longleftrightarrow> subsystem d = SUBSYSTEM
     \<and> map_of (properties d) ''ID_INPUT_JOYSTICK'' = Some ''1''
     \<and> starts_with SYS_NAME_PREFIX (sys_name d)"

definition discover :: "udev_device list \<Rightarrow> path list" where
  "discover devs = map get_device_path (filter listed devs)"

definition on_new_event :: "udev_device \<Rightarrow> py_error + hotplug option" where
  "on_new_event d =
     (if action d \<notin> {''add'', ''remove''} then Inr None
      else (case asbool (properties d) ''ID_INPUT_JOYSTICK'' of
              Inl KeyError \<Rightarrow> Inr None
            | Inl e \<Rightarrow> Inl e
            | Inr False \<Rightarrow> Inr None
            | Inr True \<Rightarrow>
                if \<not> starts_with SYS_NAME_PREFIX (sys_name d) then Inr None
                else if action d = ''add'' then Inr (Some (HAdd (get_device_path d)))
                else Inr (Some (HRemove (get_device_path d)))))"

text \<open>
  The observer thread: the monitor's \<open>filter_by(subsystem)\<close> drops other subsystems,
  each remaining event goes through \<open>on_new_event\<close>, and the first exception ends the
  thread. The result is the callbacks queued on the loop and the exception, if any.
\<close>

fun observe :: "udev_device list \<Rightarrow> hotplug list \<times> py_error option" where
  "observe [] = ([], None)"
| "observe (d # ds) =
     (if subsystem d \<noteq> SUBSYSTEM then observe ds
      else (case on_new_event d of
              Inl e \<Rightarrow> ([], Some e)
            | Inr None \<Rightarrow> observe ds
            | Inr (Some h) \<Rightarrow> (case observe ds of (hs, e) \<Rightarrow> (h # hs, e))))"

subsection \<open>The finder object and its observer thread\<close>

text \<open>
  The life of the \<open>pyudev.MonitorObserver\<close> thread: created by \<open>__init__\<close>, running
  after \<open>start()\<close>, ended by \<open>stop()\<close>, or ended by an exception its callback raised.
\<close>

datatype observer_state = ObsNew | ObsRunning | ObsStopped | ObsDied py_error

text \<open>
  The finder object: its snapshot \<open>self.devices\<close>, its observer thread, and the
  callbacks the thread has handed to the event loop with \<open>call_soon_threadsafe\<close> that the
  loop has not run yet (the loop's ready queue, in order).
\<close>

record gamepads_finder =
  finder_devices :: "path list"
  observer :: observer_state
  pending :: "hotplug list"

definition finder_init :: "udev_device list \<Rightarrow> gamepads_finder" where
  "finder_init devs = \<lparr>finder_devices = discover devs, observer = ObsNew, pending = []\<rparr>"

text \<open>\<open>start()\<close> is \<open>self.observer.start()\<close>; a thread can be started only once.\<close>

definition finder_start :: "gamepads_finder \<Rightarrow> gamepads_finder outcome" where
  "finder_start f =
     (if observer f = ObsNew then Ok (f\<lparr>observer := ObsRunning\<rparr>) else Raised RuntimeError f)"

text \<open>\<open>stop()\<close> is \<open>self.observer.stop()\<close>: it signals the thread and joins it. It is
  reached only after \<open>start()\<close>; on a thread that has already ended it has no effect.
  Callbacks already queued on the loop are not withdrawn.\<close>

definition finder_stop :: "gamepads_finder \<Rightarrow> gamepads_finder" where
  "finder_stop f = (if observer f = ObsRunning then f\<lparr>observer := ObsStopped\<rparr> else f)"

text \<open>The observer thread receiving one netlink event: nothing happens unless it runs and
  the event passes the monitor's subsystem filter; otherwise \<open>_on_new_event\<close> either
  queues a callback, ignores the event, or raises and ends the thread.\<close>

definition observer_event :: "udev_device \<Rightarrow> gamepads_finder \<Rightarrow> gamepads_finder" where
  "observer_event d f =
     (if observer f = ObsRunning \<and> subsystem d = SUBSYSTEM
      then (case on_new_event d of
              Inl e \<Rightarrow> f\<lparr>observer := ObsDied e\<rparr>
            | Inr None \<Rightarrow> f
            | Inr (Some h) \<Rightarrow> f\<lparr>pending := pending f @ [h]\<rparr>)
      else f)"

text \<open>The event loop taking the next queued callback (to run it on the supervisor).\<close>

definition loop_callback :: "gamepads_finder \<Rightarrow> (hotplug \<times> gamepads_finder) option" where
  "loop_callback f = (case pending f of [] \<Rightarrow> None | h # hs \<Rightarrow> Some (h, f\<lparr>pending := hs\<rparr>))"

text \<open>The classification the spec asks for: a joystick input device named \<open>event*\<close>.\<close>

definition is_gamepad :: "udev_device \<Rightarrow> bool" where
  "is_gamepad d \<longleftrightarrow> map_of (properties d) ''ID_INPUT_JOYSTICK'' = Some ''1''
     \<and> starts_with SYS_NAME_PREFIX (sys_name d)"

primrec hotplug_path :: "hotplug \<Rightarrow> path" where
  "hotplug_path (HAdd p) = p"
| "hotplug_path (HRemove p) = p"

lemma asbool_Inr_True:
  "asbool props n = Inr True \<longleftrightarrow> map_of props n = Some ''1''"
  by (auto simp: asbool_def split: option.splits)

lemma on_new_event_Some:
  "on_new_event d = Inr (Some h) \<Longrightarrow>
     is_gamepad d \<and> action d \<in> {''add'', ''remove''} \<and> hotplug_path h = device_node d
     \<and> (h = HAdd (device_node d) \<longleftrightarrow> action d = ''add'')"
  by (auto simp: on_new_event_def is_gamepad_def asbool_Inr_True get_device_path_def
           split: if_splits sum.splits bool.splits py_error.splits)

lemma on_new_event_Inl:
  "on_new_event d = Inl e \<Longrightarrow> e = ValueError"
  by (auto simp: on_new_event_def asbool_def split: if_splits sum.splits bool.splits
           py_error.splits option.splits)

lemma observe_sound:
  "h \<in> set (fst (observe ds)) \<Longrightarrow>
     \<exists>d \<in> set ds. subsystem d = SUBSYSTEM \<and> on_new_event d = Inr (Some h)"
proof (induction ds rule: observe.induct)
  case 1
  then show ?case by simp
next
  case (2 d ds)
  then show ?case
    by (auto split: if_splits sum.splits option.splits prod.splits)
qed

text \<open>
  The reference the live path is compared with: the events of the \<open>input\<close> subsystem
  whose action is add or remove and which the enumeration filter \<open>listed\<close> accepts,
  each turned into the matching callback.
\<close>

definition hotplug_of :: "udev_device \<Rightarrow> hotplug" where
  "hotplug_of d = (if action d = ''add'' then HAdd (device_node d) else HRemove (device_node d))"

definition joystick_flag_ok :: "udev_device \<Rightarrow> bool" where
  "joystick_flag_ok d \<longleftrightarrow> map_of (properties d) ''ID_INPUT_JOYSTICK'' \<in> {None, Some ''0'', Some ''1''}"

definition pad3 :: udev_device where
  "pad3 = \<lparr>action = ''add'', subsystem = ''input'', properties = [(''ID_INPUT_JOYSTICK'', ''1'')],
           sys_name = ''event3'', device_node = ''/dev/input/event3''\<rparr>"

definition js0 :: udev_device where
  "js0 = \<lparr>action = ''add'', subsystem = ''input'', properties = [(''ID_INPUT_JOYSTICK'', ''1'')],
          sys_name = ''js0'', device_node = ''/dev/input/js0''\<rparr>"

definition kbd4 :: udev_device where
  "kbd4 = \<lparr>action = ''add'', subsystem = ''input'', properties = [(''ID_INPUT_KEYBOARD'', ''1'')],
           sys_name = ''event4'', device_node = ''/dev/input/event4''\<rparr>"

definition odd5 :: udev_device where
  "odd5 = \<lparr>action = ''add'', subsystem = ''input'', properties = [(''ID_INPUT_JOYSTICK'', ''yes'')],
           sys_name = ''event5'', device_node = ''/dev/input/event5''\<rparr>"

lemma on_new_event_wellformed:
  "joystick_flag_ok d \<Longrightarrow> subsystem d = SUBSYSTEM \<Longrightarrow>
     on_new_event d = (if listed d \<and> action d \<in> {''add'', ''remove''} then Inr (Some (hotplug_of d)) else Inr None)"
  by (auto simp: on_new_event_def listed_def asbool_def hotplug_of_def get_device_path_def joystick_flag_ok_def
           split: option.splits)

subsection \<open>Properties\<close>

text \<open>C16: the observer thread schedules a callback only for a gamepad: every \<open>HAdd\<close> or
  \<open>HRemove\<close> it hands to the event loop comes from an add or remove event of the
  \<open>input\<close> subsystem of a device whose \<open>ID_INPUT_JOYSTICK\<close> property is \<open>1\<close> and whose
  sys name starts with \<open>event\<close>, and names that device's node.\<close>

theorem observer_only_schedules_gamepads:
  assumes "h \<in> set (fst (observe ds))"
  shows "\<exists>d \<in> set ds. is_gamepad d \<and> subsystem d = SUBSYSTEM \<and> action d \<in> {''add'', ''remove''}
           \<and> hotplug_path h = device_node d"
  using observe_sound [OF assms] on_new_event_Some by blast

theorem observer_only_schedules_gamepads_witness:
  "HAdd ''/dev/input/event3'' \<in> set (fst (observe [kbd4, pad3, js0]))
   \<and> is_gamepad pad3 \<and> hotplug_path (HAdd ''/dev/input/event3'') = device_node pad3"
proof -
  have h: "HAdd ''/dev/input/event3'' \<in> set (fst (observe [kbd4, pad3, js0]))"
    by (simp add: kbd4_def pad3_def js0_def on_new_event_def asbool_def SUBSYSTEM_def
        SYS_NAME_PREFIX_def starts_with_def get_device_path_def)
  obtain d where "d \<in> set [kbd4, pad3, js0]" "is_gamepad d" "hotplug_path (HAdd ''/dev/input/event3'') = device_node d"
    using observer_only_schedules_gamepads [OF h] by blast
  then have "d = pad3"
    by (auto simp: kbd4_def pad3_def js0_def is_gamepad_def SYS_NAME_PREFIX_def starts_with_def)
  with h show ?thesis
    using \<open>is_gamepad d\<close> \<open>hotplug_path (HAdd ''/dev/input/event3'') = device_node d\<close> by simp
qed

text \<open>C17: while every joystick property it meets is well formed (absent, \<open>0\<close> or \<open>1\<close>),
  the live hotplug path classifies exactly as the startup enumeration does: the observer
  schedules, in order, one callback per add or remove event of the \<open>input\<close> subsystem
  that the \<open>list_devices\<close> filter accepts, and raises nothing.\<close>

theorem observe_matches_enumeration_filter:
  assumes "\<forall>d \<in> set ds. joystick_flag_ok d"
  shows "observe ds = (map hotplug_of (filter (\<lambda>d. subsystem d = SUBSYSTEM \<and> listed d
                         \<and> action d \<in> {''add'', ''remove''}) ds), None)"
  using assms
proof (induction ds rule: observe.induct)
  case 1
  then show ?case by simp
next
  case (2 d ds)
  then show ?case by (auto simp: on_new_event_wellformed)
qed

theorem observe_matches_enumeration_filter_witness:
  "joystick_flag_ok kbd4 \<and> joystick_flag_ok pad3 \<and> joystick_flag_ok js0
   \<and> observe [kbd4, pad3, js0] = ([HAdd ''/dev/input/event3''], None)"
proof -
  have h: "joystick_flag_ok kbd4" "joystick_flag_ok pad3" "joystick_flag_ok js0"
    by (simp_all add: joystick_flag_ok_def kbd4_def pad3_def js0_def)
  then have "\<forall>d \<in> set [kbd4, pad3, js0]. joystick_flag_ok d" by simp
  from observe_matches_enumeration_filter [OF this] h show ?thesis
    by (simp add: kbd4_def pad3_def js0_def listed_def hotplug_of_def SUBSYSTEM_def
        SYS_NAME_PREFIX_def starts_with_def)
qed

text \<open>C25: an add or remove event of the \<open>input\<close> subsystem whose \<open>ID_INPUT_JOYSTICK\<close>
  property is neither \<open>0\<close> nor \<open>1\<close> makes \<open>asbool\<close> raise \<open>ValueError\<close>, which
  \<open>_on_new_event\<close> does not catch: the observer thread ends there and no later hotplug
  event, however well formed, is ever delivered.\<close>

theorem malformed_flag_stops_observer:
  assumes "subsystem d = SUBSYSTEM" and "action d \<in> {''add'', ''remove''}"
    and "map_of (properties d) ''ID_INPUT_JOYSTICK'' = Some v" and "v \<notin> {''0'', ''1''}"
  shows "observe (d # ds) = ([], Some ValueError)"
  using assms by (auto simp: on_new_event_def asbool_def)

theorem malformed_flag_stops_observer_witness:
  "observe [odd5, pad3] = ([], Some ValueError) \<and> observe [pad3] \<noteq> ([], Some ValueError)"
proof -
  have "observe [odd5, pad3] = ([], Some ValueError)"
    by (rule malformed_flag_stops_observer [of odd5 "''yes''"]) (simp_all add: odd5_def SUBSYSTEM_def)
  then show ?thesis
    by (simp add: pad3_def on_new_event_def asbool_def SUBSYSTEM_def SYS_NAME_PREFIX_def
        starts_with_def get_device_path_def)
qed

lemma fold_observer_idle: "observer f \<noteq> ObsRunning \<Longrightarrow> fold observer_event ds f = f"
  by (induction ds) (simp_all add: observer_event_def)

definition finder3 :: gamepads_finder where
  "finder3 = \<lparr>finder_devices = [''/dev/input/event3''], observer = ObsRunning, pending = []\<rparr>"

text \<open>C27: \<open>stop()\<close> ends the observation, so that no later netlink event queues a
  callback, but it does not withdraw the callbacks already queued: the loop still runs
  them after \<open>stop()\<close> has returned, whereas the spec says no callback fires after it.\<close>

theorem finder_stop_keeps_queued_callbacks:
  "observer (finder_stop f) \<noteq> ObsRunning
   \<and> pending (fold observer_event ds (finder_stop f)) = pending f
   \<and> map_option fst (loop_callback (fold observer_event ds (finder_stop f))) = map_option fst (loop_callback f)"
proof -
  have idle: "observer (finder_stop f) \<noteq> ObsRunning" by (simp add: finder_stop_def)
  have "pending (finder_stop f) = pending f" by (simp add: finder_stop_def)
  with idle show ?thesis by (simp add: fold_observer_idle loop_callback_def split: list.split)
qed

end
