(* ===== verification/Watcher.thy ===== *)
theory Watcher
  imports Prelude
begin

text \<open>
  The activity monitor supervisor, class \<open>GamepadsWatcher\<close> of
  src/gamepad-lock-inhibit.py, together with the part of the asyncio runtime its methods
  act on. The record \<open>watcher\<close> holds the object's fields (\<open>gamepad_active\<close>,
  \<open>started\<close>, the dicts \<open>tasks\<close> and \<open>devices\<close>) and two runtime components: \<open>rt\<close>,
  every asyncio task created so far, indexed by creation order (the task identity), and
  \<open>opened\<close>, the \<open>evdev.InputDevice\<close> objects not yet closed (the device object opened
  by \<open>create_monitor_task\<close> for task \<open>t\<close> has identity \<open>t\<close>). Each method is one
  definition returning an \<open>outcome\<close>; the coroutine \<open>monitor_gamepad_events\<close> and the
  done callback are the task events of \<open>sup_step\<close>.
\<close>

subsection \<open>Tasks\<close>

text \<open>
  How a monitor coroutine ended: it caught \<open>CancelledError\<close> inside its \<open>try\<close>, its read
  failed with errno 19 (\<open>ENODEV\<close>, logged at info level) or with another errno (logged
  as an error), or it was cancelled before its first step and never entered the \<open>try\<close>
  (the task then ends cancelled).
\<close>

datatype exit_cause = CaughtCancel | NoDevice | ReadFailed | UncaughtCancel

text \<open>
  The life of an asyncio task running \<open>monitor_gamepad_events\<close>: created and not yet
  stepped; suspended in the read loop inside the \<open>try\<close>; cancellation requested
  (\<open>True\<close> when the coroutine had already entered the \<open>try\<close>); finished with its done
  callback \<open>finish_removing_device\<close> scheduled; and finished with the callback run.
\<close>

datatype task_status =
    Created
  | Reading
  | CancelReq bool
  | Exited exit_cause
  | Collected exit_cause

record mtask =
  t_dev :: path
  t_status :: task_status

text \<open>A task is live until its done callback has run; its coroutine is alive until it ends.\<close>

fun live :: "task_status \<Rightarrow> bool" where
  "live (Collected c) = False"
| "live _ = True"

fun alive :: "task_status \<Rightarrow> bool" where
  "alive Created = True"
| "alive Reading = True"
| "alive (CancelReq b) = True"
| "alive _ = False"

record watcher =
  gamepad_active :: bool
  started :: bool
  tasks :: "(path \<times> tid option) list"
  devices :: "(path \<times> tid) list"
  rt :: "mtask list"
  opened :: "tid set"

definition watcher_init :: watcher where
  "watcher_init =
     \<lparr>gamepad_active = False, started = False, tasks = [], devices = [], rt = [], opened = {}\<rparr>"

text \<open>
  Opening a device node can fail (\<open>evdev.InputDevice(path)\<close> raises \<open>OSError\<close>, for
  instance when the node has already vanished or is not readable): an \<open>opener\<close> gives
  the errno of the failure for a path, \<open>None\<close> when the open succeeds.
\<close>

type_synonym opener = "path \<Rightarrow> nat option"

subsection \<open>Methods\<close>

primrec set_init_devices :: "path list \<Rightarrow> watcher \<Rightarrow> watcher" where
  "set_init_devices [] s = s"
| "set_init_devices (p # ps) s = set_init_devices ps (s\<lparr>tasks := AList.update p None (tasks s)\<rparr>)"

definition create_monitor_task :: "opener \<Rightarrow> path \<Rightarrow> watcher \<Rightarrow> watcher outcome" where
  "create_monitor_task opn p s =
     (case opn p of
        Some errno \<Rightarrow> Raised (OSError errno) s
      | None \<Rightarrow>
          (let t = length (rt s) in
           Ok (s\<lparr>devices := AList.update p t (devices s),
                 opened := insert t (opened s),
                 tasks := AList.update p (Some t) (tasks s),
                 rt := rt s @ [\<lparr>t_dev = p, t_status = Created\<rparr>]\<rparr>)))"

definition add_device :: "opener \<Rightarrow> path \<Rightarrow> watcher \<Rightarrow> watcher outcome" where
  "add_device opn p s =
     (case dict_get (tasks s) p of
        Some t \<Rightarrow> Ok s
      | None \<Rightarrow>
          if \<not> started s then Ok (s\<lparr>tasks := AList.update p None (tasks s)\<rparr>)
          else create_monitor_task opn p s)"

text \<open>\<open>Task.cancel()\<close>: no effect on a finished task; otherwise cancellation is requested.\<close>

fun cancel_status :: "task_status \<Rightarrow> task_status" where
  "cancel_status Created = CancelReq False"
| "cancel_status Reading = CancelReq True"
| "cancel_status st = st"

definition set_status :: "tid \<Rightarrow> (task_status \<Rightarrow> task_status) \<Rightarrow> watcher \<Rightarrow> watcher" where
  "set_status t f s =
     s\<lparr>rt := (rt s)[t := (rt s ! t)\<lparr>t_status := f (t_status (rt s ! t))\<rparr>]\<rparr>"

definition cancel_task :: "tid \<Rightarrow> watcher \<Rightarrow> watcher" where
  "cancel_task t s = set_status t cancel_status s"

definition remove_device :: "path \<Rightarrow> watcher \<Rightarrow> watcher outcome" where
  "remove_device p s =
     (case dict_get (tasks s) p of
        None \<Rightarrow> Ok (s\<lparr>tasks := AList.delete p (tasks s)\<rparr>)
      | Some t \<Rightarrow>
          (let s1 = cancel_task t s in
           case map_of (devices s1) p of
             None \<Rightarrow> Raised KeyError s1
           | Some h \<Rightarrow>
               Ok (s1\<lparr>opened := opened s1 - {h}, devices := AList.delete p (devices s1)\<rparr>)))"

definition finish_removing_device :: "path \<Rightarrow> watcher \<Rightarrow> watcher outcome" where
  "finish_removing_device p s =
     (if dict_has (tasks s) p then Ok (s\<lparr>tasks := AList.delete p (tasks s)\<rparr>)
      else Raised KeyError s)"

fun start_loop :: "opener \<Rightarrow> path list \<Rightarrow> watcher \<Rightarrow> watcher outcome" where
  "start_loop opn [] s = Ok s"
| "start_loop opn (p # ps) s =
     (case create_monitor_task opn p s of
        Ok s' \<Rightarrow> start_loop opn ps s'
      | Raised e s' \<Rightarrow> Raised e s')"

definition start :: "opener \<Rightarrow> watcher \<Rightarrow> watcher outcome" where
  "start opn s = start_loop opn (map fst (tasks s)) (s\<lparr>started := True\<rparr>)"

text \<open>
  \<open>stop()\<close> up to its \<open>await\<close>: clear \<open>started\<close>, then \<open>task.cancel()\<close> for every
  value of \<open>tasks\<close> in order; a \<open>None\<close> value raises \<open>AttributeError\<close> there.
  \<open>stop_gathers\<close> is the list the \<open>asyncio.gather\<close> then awaits.
\<close>

fun cancel_all :: "tid option list \<Rightarrow> watcher \<Rightarrow> watcher outcome" where
  "cancel_all [] s = Ok s"
| "cancel_all (None # ts) s = Raised AttributeError s"
| "cancel_all (Some t # ts) s = cancel_all ts (cancel_task t s)"

definition stop_begin :: "watcher \<Rightarrow> watcher outcome" where
  "stop_begin s = cancel_all (map snd (tasks s)) (s\<lparr>started := False\<rparr>)"

definition stop_gathers :: "watcher \<Rightarrow> tid list" where
  "stop_gathers s = map the (map snd (tasks s))"

text \<open>
  The \<open>await asyncio.gather(*tasks)\<close> of \<open>stop()\<close> (without \<open>return_exceptions\<close>): it
  raises \<open>CancelledError\<close> as soon as one awaited task has ended cancelled, even while
  others still run; otherwise it is still waiting (\<open>None\<close>) while one of them has not
  ended, and returns once all have.
\<close>

fun ended_cause :: "task_status \<Rightarrow> exit_cause option" where
  "ended_cause (Exited c) = Some c"
| "ended_cause (Collected c) = Some c"
| "ended_cause _ = None"

definition gather :: "tid list \<Rightarrow> watcher \<Rightarrow> watcher outcome option" where
  "gather ts s =
     (if \<exists>t \<in> set ts. ended_cause (t_status (rt s ! t)) = Some UncaughtCancel
      then Some (Raised CancelledError s)
      else if \<exists>t \<in> set ts. ended_cause (t_status (rt s ! t)) = None then None
      else Some (Ok s))"

definition get_and_reset_active :: "watcher \<Rightarrow> bool \<times> watcher" where
  "get_and_reset_active s = (gamepad_active s, s\<lparr>gamepad_active := False\<rparr>)"

subsection \<open>The monitor coroutine and the done callback\<close>

text \<open>
  Steps of the per-device task \<open>monitor_gamepad_events\<close> as the event loop runs them:
  its first step enters the \<open>try\<close> and the read loop; each input event sets the
  activity flag; a read error ends it (\<open>err.errno == 19\<close> or not); a requested
  cancellation ends it, caught or not. A finished task's done callback marks it
  collected and runs \<open>finish_removing_device(t_dev)\<close>.
\<close>

datatype task_event = TBegin | TInput | TReadError nat | TCancelled | TDoneCallback

datatype sup_event = EvAdd path | EvRemove path | EvTask tid task_event

definition task_status_of :: "watcher \<Rightarrow> tid \<Rightarrow> task_status option" where
  "task_status_of s t = (if t < length (rt s) then Some (t_status (rt s ! t)) else None)"

fun task_step :: "task_event \<Rightarrow> task_status \<Rightarrow> task_status option" where
  "task_step TBegin Created = Some Reading"
| "task_step TInput Reading = Some Reading"
| "task_step (TReadError errno) Reading =
     Some (Exited (if errno = 19 then NoDevice else ReadFailed))"
| "task_step TCancelled (CancelReq b) =
     Some (Exited (if b then CaughtCancel else UncaughtCancel))"
| "task_step TDoneCallback (Exited c) = Some (Collected c)"
| "task_step _ _ = None"

text \<open>What the step does besides moving the task to its new status.\<close>

fun task_effect :: "tid \<Rightarrow> task_event \<Rightarrow> watcher \<Rightarrow> watcher outcome" where
  "task_effect t TInput s = Ok (s\<lparr>gamepad_active := True\<rparr>)"
| "task_effect t TDoneCallback s = finish_removing_device (t_dev (rt s ! t)) s"
| "task_effect t _ s = Ok s"

fun sup_step :: "opener \<Rightarrow> sup_event \<Rightarrow> watcher \<Rightarrow> watcher outcome option" where
  "sup_step opn (EvAdd p) s = Some (add_device opn p s)"
| "sup_step opn (EvRemove p) s = Some (remove_device p s)"
| "sup_step opn (EvTask t te) s =
     (case task_status_of s t of
        None \<Rightarrow> None
      | Some st \<Rightarrow>
          (case task_step te st of
             None \<Rightarrow> None
           | Some st' \<Rightarrow> Some (task_effect t te (set_status t (\<lambda>_. st') s))))"

end
