(* ===== verification/Watcher_Inv.thy ===== *)
theory Watcher_Inv
  imports Watcher
begin

text \<open>
  The supervisor's well-formedness invariant and its preservation by every method and
  task event of \<open>Watcher\<close>. \<open>sup_core\<close> says: the dict keys are distinct; every
  \<open>tasks\<close> value names a live task of that path, and one still reading has its device in
  \<open>devices\<close> and open; every live task is the value of its path; every \<open>devices\<close>
  value is a task of that path; open handles belong to created tasks. \<open>sup_inv\<close> adds
  that a started supervisor has no \<open>None\<close> placeholders.
\<close>

definition entry_ok :: "watcher \<Rightarrow> path \<Rightarrow> tid option \<Rightarrow> bool" where
  "entry_ok s p v =
     (case v of
        None \<Rightarrow> True
      | Some t \<Rightarrow> t < length (rt s) \<and> t_dev (rt s ! t) = p \<and> live (t_status (rt s ! t))
          \<and> (t_status (rt s ! t) \<in> {Created, Reading} \<longrightarrow> map_of (devices s) p = Some t \<and> t \<in> opened s))"

definition sup_core :: "watcher \<Rightarrow> bool" where
  "sup_core s \<longleftrightarrow>
     distinct (map fst (tasks s)) \<and> distinct (map fst (devices s))
     \<and> (\<forall>(p, v) \<in> set (tasks s). entry_ok s p v)
     \<and> (\<forall>t < length (rt s).
          live (t_status (rt s ! t)) \<longrightarrow> map_of (tasks s) (t_dev (rt s ! t)) = Some (Some t))
     \<and> (\<forall>(p, h) \<in> set (devices s). h < length (rt s) \<and> t_dev (rt s ! h) = p)
     \<and> (\<forall>t \<in> opened s. t < length (rt s))"

definition sup_inv :: "watcher \<Rightarrow> bool" where
  "sup_inv s \<longleftrightarrow> sup_core s \<and> (started s \<longrightarrow> (\<forall>(p, v) \<in> set (tasks s). v \<noteq> None))"

lemma sup_core_iff:
  "sup_core s \<longleftrightarrow>
     distinct (map fst (tasks s)) \<and> distinct (map fst (devices s))
     \<and> (\<forall>p v. map_of (tasks s) p = Some v \<longrightarrow> entry_ok s p v)
     \<and> (\<forall>t < length (rt s).
          live (t_status (rt s ! t)) \<longrightarrow> map_of (tasks s) (t_dev (rt s ! t)) = Some (Some t))
     \<and> (\<forall>p h. map_of (devices s) p = Some h \<longrightarrow> h < length (rt s) \<and> t_dev (rt s ! h) = p)
     \<and> (\<forall>t \<in> opened s. t < length (rt s))"
  unfolding sup_core_def by (simp add: ball_set_map_of cong: conj_cong)

lemma sup_coreI:
  assumes "distinct (map fst (tasks s))" and "distinct (map fst (devices s))"
    and "\<And>p v. map_of (tasks s) p = Some v \<Longrightarrow> entry_ok s p v"
    and "\<And>t. t < length (rt s) \<Longrightarrow> live (t_status (rt s ! t)) \<Longrightarrow>
               map_of (tasks s) (t_dev (rt s ! t)) = Some (Some t)"
    and "\<And>p h. map_of (devices s) p = Some h \<Longrightarrow> h < length (rt s) \<and> t_dev (rt s ! h) = p"
    and "\<And>t. t \<in> opened s \<Longrightarrow> t < length (rt s)"
  shows "sup_core s"
  unfolding sup_core_iff using assms by blast

lemma sup_coreD:
  assumes "sup_core s"
  shows sup_core_distinct: "distinct (map fst (tasks s))"
    and sup_core_distinct_devices: "distinct (map fst (devices s))"
    and sup_core_opened: "t \<in> opened s \<Longrightarrow> t < length (rt s)"
    and sup_core_entry: "map_of (tasks s) p = Some v \<Longrightarrow> entry_ok s p v"
    and sup_core_live: "t < length (rt s) \<Longrightarrow> live (t_status (rt s ! t)) \<Longrightarrow>
                        map_of (tasks s) (t_dev (rt s ! t)) = Some (Some t)"
    and sup_core_dev: "map_of (devices s) p = Some h \<Longrightarrow> h < length (rt s) \<and> t_dev (rt s ! h) = p"
  using assms by (simp_all add: sup_core_iff)

lemma sup_inv_iff:
  "sup_inv s \<longleftrightarrow> sup_core s \<and> (started s \<longrightarrow> (\<forall>p. map_of (tasks s) p \<noteq> Some None))"
proof (cases "sup_core s")
  case True
  then have "distinct (map fst (tasks s))" by (rule sup_core_distinct)
  then have "(\<forall>(p, v) \<in> set (tasks s). v \<noteq> None) \<longleftrightarrow> (\<forall>p v. map_of (tasks s) p = Some v \<longrightarrow> v \<noteq> None)"
    by (rule ball_set_map_of)
  with True show ?thesis unfolding sup_inv_def by auto
next
  case False
  then show ?thesis unfolding sup_inv_def by simp
qed

lemma entry_ok_frame:
  assumes "entry_ok s q v"
    and "\<And>t. v = Some t \<Longrightarrow> t < length (rt s') \<and> rt s' ! t = rt s ! t"
    and "map_of (devices s') q = map_of (devices s) q" and "opened s \<subseteq> opened s'"
  shows "entry_ok s' q v"
  using assms by (auto simp: entry_ok_def split: option.splits)

subsection \<open>Creating a monitor task\<close>

definition created :: "path \<Rightarrow> watcher \<Rightarrow> watcher" where
  "created p s = s\<lparr>devices := AList.update p (length (rt s)) (devices s),
                 opened := insert (length (rt s)) (opened s),
                 tasks := AList.update p (Some (length (rt s))) (tasks s),
                 rt := rt s @ [\<lparr>t_dev = p, t_status = Created\<rparr>]\<rparr>"

lemma create_monitor_task_eq:
  "create_monitor_task opn p s =
     (case opn p of Some e \<Rightarrow> Raised (OSError e) s | None \<Rightarrow> Ok (created p s))"
  by (simp add: create_monitor_task_def created_def Let_def split: option.split)

lemma created_simps [simp]:
  "tasks (created p s) = AList.update p (Some (length (rt s))) (tasks s)"
  "devices (created p s) = AList.update p (length (rt s)) (devices s)"
  "rt (created p s) = rt s @ [\<lparr>t_dev = p, t_status = Created\<rparr>]"
  "opened (created p s) = insert (length (rt s)) (opened s)"
  "started (created p s) = started s"
  "gamepad_active (created p s) = gamepad_active s"
  by (simp_all add: created_def)

lemma created_entry:
  assumes inv: "sup_core s" and q: "map_of (tasks (created p s)) q = Some v"
  shows "entry_ok (created p s) q v"
proof (cases "q = p")
  case True
  with q have "v = Some (length (rt s))" by (simp add: dict_simps)
  with True show ?thesis by (simp add: entry_ok_def dict_simps)
next
  case False
  with q have "map_of (tasks s) q = Some v" by (simp add: dict_simps)
  with inv have ok: "entry_ok s q v" by (rule sup_core_entry)
  show ?thesis
  proof (rule entry_ok_frame [OF ok])
    fix t assume "v = Some t"
    with ok have "t < length (rt s)" by (simp add: entry_ok_def)
    then show "t < length (rt (created p s)) \<and> rt (created p s) ! t = rt s ! t"
      by (simp add: nth_append)
  qed (use False in \<open>auto simp: dict_simps\<close>)
qed

lemma created_live:
  assumes inv: "sup_core s" and none: "dict_get (tasks s) p = None"
    and t: "t < length (rt (created p s))" and l: "live (t_status (rt (created p s) ! t))"
  shows "map_of (tasks (created p s)) (t_dev (rt (created p s) ! t)) = Some (Some t)"
proof (cases "t = length (rt s)")
  case True
  then show ?thesis by (simp add: dict_simps)
next
  case False
  with t have lt: "t < length (rt s)" by simp
  with l have "live (t_status (rt s ! t))" by (simp add: nth_append)
  with inv lt have reg: "map_of (tasks s) (t_dev (rt s ! t)) = Some (Some t)"
    by (rule sup_core_live)
  with none have "t_dev (rt s ! t) \<noteq> p" by (auto simp: dict_get_def)
  with reg lt show ?thesis by (simp add: dict_simps nth_append)
qed

lemma created_core:
  assumes inv: "sup_core s" and none: "dict_get (tasks s) p = None"
  shows "sup_core (created p s)"
proof (rule sup_coreI)
  show "distinct (map fst (tasks (created p s)))" "distinct (map fst (devices (created p s)))"
    using sup_core_distinct [OF inv] sup_core_distinct_devices [OF inv] by (simp_all add: dict_simps)
next
  fix q v assume "map_of (tasks (created p s)) q = Some v"
  with inv show "entry_ok (created p s) q v" by (rule created_entry)
next
  fix t assume "t < length (rt (created p s))" "live (t_status (rt (created p s) ! t))"
  with inv none show "map_of (tasks (created p s)) (t_dev (rt (created p s) ! t)) = Some (Some t)"
    by (rule created_live)
next
  fix q h assume "map_of (devices (created p s)) q = Some h"
  with inv show "h < length (rt (created p s)) \<and> t_dev (rt (created p s) ! h) = q"
    by (cases "q = p") (auto simp: dict_simps nth_append dest: sup_core_dev)
next
  fix t assume "t \<in> opened (created p s)"
  with inv show "t < length (rt (created p s))" by (auto dest: sup_core_opened)
qed

subsection \<open>Changing the status of one task\<close>

lemma set_status_simps [simp]:
  "tasks (set_status t f s) = tasks s"
  "devices (set_status t f s) = devices s"
  "opened (set_status t f s) = opened s"
  "started (set_status t f s) = started s"
  "gamepad_active (set_status t f s) = gamepad_active s"
  "length (rt (set_status t f s)) = length (rt s)"
  by (simp_all add: set_status_def)

lemma set_status_nth:
  "u < length (rt s) \<Longrightarrow> rt (set_status t f s) ! u =
     (if u = t then (rt s ! t)\<lparr>t_status := f (t_status (rt s ! t))\<rparr> else rt s ! u)"
  by (simp add: set_status_def nth_list_update)

lemma set_status_beyond:
  "length (rt s) \<le> t \<Longrightarrow> set_status t f s = s"
  by (simp add: set_status_def list_update_beyond)

lemma set_status_dev [simp]:
  "u < length (rt s) \<Longrightarrow> t_dev (rt (set_status t f s) ! u) = t_dev (rt s ! u)"
  by (simp add: set_status_nth)

lemma set_status_core:
  assumes inv: "sup_core s"
    and l: "live (f (t_status (rt s ! t))) = live (t_status (rt s ! t))"
    and rd: "f (t_status (rt s ! t)) \<in> {Created, Reading} \<Longrightarrow> t_status (rt s ! t) \<in> {Created, Reading}"
  shows "sup_core (set_status t f s)"
proof (cases "t < length (rt s)")
  case False
  with inv show ?thesis by (simp add: set_status_beyond)
next
  case True
  show ?thesis
  proof (rule sup_coreI)
    fix p v assume "map_of (tasks (set_status t f s)) p = Some v"
    then have "entry_ok s p v" using inv by (simp add: sup_core_entry)
    with True l rd show "entry_ok (set_status t f s) p v"
      by (auto simp: entry_ok_def set_status_nth split: option.splits if_splits)
  next
    fix u assume "u < length (rt (set_status t f s))" "live (t_status (rt (set_status t f s) ! u))"
    with True l inv show "map_of (tasks (set_status t f s)) (t_dev (rt (set_status t f s) ! u)) = Some (Some u)"
      by (auto simp: set_status_nth dest: sup_core_live split: if_splits)
  qed (use inv in \<open>auto simp: sup_core_distinct sup_core_distinct_devices dest: sup_core_dev sup_core_opened\<close>)
qed

lemma cancel_status_cases:
  "live (cancel_status st) = live st" "cancel_status st \<noteq> Created" "cancel_status st \<noteq> Reading"
  by (cases st; simp)+

lemma cancel_task_core: "sup_core s \<Longrightarrow> sup_core (cancel_task t s)"
  unfolding cancel_task_def by (rule set_status_core) (simp_all add: cancel_status_cases)

lemma cancel_task_simps [simp]:
  "tasks (cancel_task t s) = tasks s" "devices (cancel_task t s) = devices s"
  "opened (cancel_task t s) = opened s" "started (cancel_task t s) = started s"
  "length (rt (cancel_task t s)) = length (rt s)"
  by (simp_all add: cancel_task_def)

lemma entry_ok_cong:
  assumes "rt s' = rt s" "devices s' = devices s" "opened s' = opened s"
  shows "entry_ok s' p v = entry_ok s p v"
  unfolding entry_ok_def by (simp only: assms)

text \<open>A path without a running task is not the path of any live task.\<close>

lemma live_dev_not_untracked:
  assumes "sup_core s" "dict_get (tasks s) p = None" "u < length (rt s)" "live (t_status (rt s ! u))"
  shows "t_dev (rt s ! u) \<noteq> p"
  using assms sup_core_live [OF assms(1,3,4)] by (auto simp: dict_get_def)

subsection \<open>Removing a device\<close>

text \<open>A change of the \<open>tasks\<close> dict alone keeps the invariant when it keeps its three
  clauses about \<open>tasks\<close>.\<close>

lemma sup_core_tasks_frame:
  assumes inv: "sup_core s"
    and eq: "rt s' = rt s" "devices s' = devices s" "opened s' = opened s"
    and d: "distinct (map fst (tasks s'))"
    and e: "\<And>p v. map_of (tasks s') p = Some v \<Longrightarrow> entry_ok s p v"
    and l: "\<And>u. u < length (rt s) \<Longrightarrow> live (t_status (rt s ! u)) \<Longrightarrow>
              map_of (tasks s') (t_dev (rt s ! u)) = Some (Some u)"
  shows "sup_core s'"
proof (rule sup_coreI)
  show "distinct (map fst (devices s'))" using sup_core_distinct_devices [OF inv] eq by simp
next
  fix p v assume "map_of (tasks s') p = Some v"
  then show "entry_ok s' p v" using e entry_ok_cong [OF eq] by simp
next
  fix p h assume "map_of (devices s') p = Some h"
  then show "h < length (rt s') \<and> t_dev (rt s' ! h) = p" using sup_core_dev [OF inv] eq by simp
next
  fix t assume "t \<in> opened s'"
  then show "t < length (rt s')" using sup_core_opened [OF inv] eq by simp
qed (use d l eq in simp_all)

lemma drop_entry_core:
  assumes inv: "sup_core s" and none: "dict_get (tasks s) p = None"
  shows "sup_core (s\<lparr>tasks := AList.delete p (tasks s)\<rparr>)"
proof (rule sup_core_tasks_frame [OF inv])
  show "distinct (map fst (tasks (s\<lparr>tasks := AList.delete p (tasks s)\<rparr>)))"
    using sup_core_distinct [OF inv] by (simp add: dict_simps)
next
  fix q v assume "map_of (tasks (s\<lparr>tasks := AList.delete p (tasks s)\<rparr>)) q = Some v"
  then have "map_of (tasks s) q = Some v" by (simp add: dict_simps split: if_splits)
  with inv show "entry_ok s q v" by (rule sup_core_entry)
next
  fix u assume u: "u < length (rt s)" "live (t_status (rt s ! u))"
  then have "t_dev (rt s ! u) \<noteq> p" by (rule live_dev_not_untracked [OF inv none])
  with sup_core_live [OF inv u]
  show "map_of (tasks (s\<lparr>tasks := AList.delete p (tasks s)\<rparr>)) (t_dev (rt s ! u)) = Some (Some u)"
    by (simp add: dict_simps)
qed simp_all

lemma close_entry_core:
  assumes inv: "sup_core s" and t: "dict_get (tasks s) p = Some t"
    and h: "map_of (devices s) p = Some h"
  shows "sup_core ((cancel_task t s)\<lparr>opened := opened s - {h}, devices := AList.delete p (devices s)\<rparr>)"
    (is "sup_core ?s")
proof -
  have inv1: "sup_core (cancel_task t s)" using inv by (rule cancel_task_core)
  from t have tp: "map_of (tasks s) p = Some (Some t)" by (simp add: dict_simps)
  from inv tp have "entry_ok s p (Some t)" by (rule sup_core_entry)
  then have tlen: "t < length (rt s)" by (simp add: entry_ok_def)
  have st: "t_status (rt (cancel_task t s) ! t) \<notin> {Created, Reading}"
    using tlen by (simp add: cancel_task_def set_status_nth cancel_status_cases)
  from inv h have hdev: "t_dev (rt s ! h) = p" by (simp add: sup_core_dev)
  show ?thesis
  proof (rule sup_coreI)
    fix q v assume qv: "map_of (tasks ?s) q = Some v"
    then have "entry_ok (cancel_task t s) q v" using inv1 by (simp add: sup_core_entry)
    moreover have "q = p \<Longrightarrow> v = Some t" using qv tp by simp
    ultimately show "entry_ok ?s q v"
      using st hdev by (auto simp: entry_ok_def dict_simps cancel_task_def split: option.splits)
  next
    fix u assume "u < length (rt ?s)" "live (t_status (rt ?s ! u))"
    with inv1 have "map_of (tasks (cancel_task t s)) (t_dev (rt (cancel_task t s) ! u)) = Some (Some u)"
      by (intro sup_core_live) simp_all
    then show "map_of (tasks ?s) (t_dev (rt ?s ! u)) = Some (Some u)" by simp
  next
    fix q h' assume "map_of (devices ?s) q = Some h'"
    with inv1 show "h' < length (rt ?s) \<and> t_dev (rt ?s ! h') = q"
      by (auto simp: dict_simps dest: sup_core_dev split: if_splits)
  qed (use inv inv1 in \<open>auto simp: sup_core_distinct sup_core_distinct_devices dict_simps
                           dest: sup_core_opened\<close>)
qed

lemma remove_device_cases:
  "dict_get (tasks s) p = None \<Longrightarrow> remove_device p s = Ok (s\<lparr>tasks := AList.delete p (tasks s)\<rparr>)"
  "dict_get (tasks s) p = Some t \<Longrightarrow> map_of (devices s) p = None \<Longrightarrow>
     remove_device p s = Raised KeyError (cancel_task t s)"
  "dict_get (tasks s) p = Some t \<Longrightarrow> map_of (devices s) p = Some h \<Longrightarrow>
     remove_device p s =
       Ok ((cancel_task t s)\<lparr>opened := opened s - {h}, devices := AList.delete p (devices s)\<rparr>)"
  by (simp_all add: remove_device_def)

lemma remove_device_core:
  assumes inv: "sup_core s"
  shows "sup_core (state_of (remove_device p s))"
proof (cases "dict_get (tasks s) p")
  case None
  with inv show ?thesis by (simp add: remove_device_cases drop_entry_core)
next
  case (Some t)
  show ?thesis
  proof (cases "map_of (devices s) p")
    case None
    with Some inv show ?thesis by (simp add: remove_device_cases cancel_task_core)
  next
    case (Some h)
    with \<open>dict_get (tasks s) p = Some t\<close> inv show ?thesis
      by (simp add: remove_device_cases close_entry_core)
  qed
qed

subsection \<open>Adding a device\<close>

lemma register_core:
  assumes inv: "sup_core s" and none: "dict_get (tasks s) p = None"
  shows "sup_core (s\<lparr>tasks := AList.update p None (tasks s)\<rparr>)"
proof (rule sup_core_tasks_frame [OF inv])
  show "distinct (map fst (tasks (s\<lparr>tasks := AList.update p None (tasks s)\<rparr>)))"
    using sup_core_distinct [OF inv] by (simp add: dict_simps)
next
  fix q v assume q: "map_of (tasks (s\<lparr>tasks := AList.update p None (tasks s)\<rparr>)) q = Some v"
  show "entry_ok s q v"
  proof (cases "q = p")
    case True
    with q show ?thesis by (simp add: dict_simps entry_ok_def)
  next
    case False
    with q inv show ?thesis by (simp add: dict_simps sup_core_entry)
  qed
next
  fix u assume u: "u < length (rt s)" "live (t_status (rt s ! u))"
  then have "t_dev (rt s ! u) \<noteq> p" by (rule live_dev_not_untracked [OF inv none])
  with sup_core_live [OF inv u]
  show "map_of (tasks (s\<lparr>tasks := AList.update p None (tasks s)\<rparr>)) (t_dev (rt s ! u)) = Some (Some u)"
    by (simp add: dict_simps)
qed simp_all

lemma sup_core_cong:
  assumes "tasks s' = tasks s" "devices s' = devices s" "rt s' = rt s" "opened s' = opened s"
  shows "sup_core s' = sup_core s"
proof -
  have "entry_ok s' = entry_ok s" by (intro ext) (rule entry_ok_cong [OF assms(3,2,4)])
  then show ?thesis unfolding sup_core_def by (simp only: assms)
qed

lemma sup_core_fields [simp]:
  "sup_core (s\<lparr>started := b\<rparr>) = sup_core s"
  "sup_core (s\<lparr>gamepad_active := b\<rparr>) = sup_core s"
  by (rule sup_core_cong; simp)+

lemma add_device_inv:
  assumes inv: "sup_inv s"
  shows "sup_inv (state_of (add_device opn p s))"
proof -
  from inv have core: "sup_core s" by (simp add: sup_inv_def)
  show ?thesis
  proof (cases "dict_get (tasks s) p")
    case (Some t)
    with inv show ?thesis by (simp add: add_device_def)
  next
    case None
    show ?thesis
    proof (cases "started s")
      case False
      with None core show ?thesis
        by (simp add: add_device_def sup_inv_iff register_core)
    next
      case True
      show ?thesis
      proof (cases "opn p")
        case (Some e)
        with None True inv show ?thesis by (simp add: add_device_def create_monitor_task_eq)
      next
        case None':None
        have "sup_core (created p s)" using core None by (rule created_core)
        moreover have "map_of (tasks (created p s)) q \<noteq> Some None" for q
          using inv True by (simp add: sup_inv_iff dict_simps)
        ultimately show ?thesis using None None' True
          by (simp add: add_device_def create_monitor_task_eq sup_inv_iff)
      qed
    qed
  qed
qed

subsection \<open>Task events\<close>

lemma task_step_keeps:
  assumes "task_step te st = Some st'" "te \<noteq> TDoneCallback"
  shows "live st' = live st" and "st' \<in> {Created, Reading} \<Longrightarrow> st \<in> {Created, Reading}"
  using assms by (cases te; cases st; auto)+

lemma task_step_done:
  "task_step TDoneCallback st = Some st' \<longleftrightarrow> (\<exists>c. st = Exited c \<and> st' = Collected c)"
  by (cases st) auto

text \<open>
  The done callback of a finished task: the task becomes collected and
  \<open>finish_removing_device\<close> deletes its path from \<open>tasks\<close>, which it finds there.
\<close>

lemma done_callback_ok:
  assumes inv: "sup_core s" and t: "t < length (rt s)" and st: "t_status (rt s ! t) = Exited c"
  shows "finish_removing_device (t_dev (rt s ! t)) (set_status t (\<lambda>_. Collected c) s) =
           Ok ((set_status t (\<lambda>_. Collected c) s)\<lparr>tasks := AList.delete (t_dev (rt s ! t)) (tasks s)\<rparr>)"
proof -
  have "map_of (tasks s) (t_dev (rt s ! t)) = Some (Some t)"
    using inv t by (rule sup_core_live) (simp add: st)
  then show ?thesis by (simp add: finish_removing_device_def dict_has_def)
qed

lemma done_callback_core:
  assumes inv: "sup_core s" and t: "t < length (rt s)" and st: "t_status (rt s ! t) = Exited c"
  shows "sup_core ((set_status t (\<lambda>_. Collected c) s)\<lparr>tasks := AList.delete (t_dev (rt s ! t)) (tasks s)\<rparr>)"
    (is "sup_core ?s")
proof -
  let ?p = "t_dev (rt s ! t)"
  have reg: "map_of (tasks s) ?p = Some (Some t)"
    using inv t by (rule sup_core_live) (simp add: st)
  have other: "u \<noteq> t \<Longrightarrow> rt (set_status t (\<lambda>_. Collected c) s) ! u = rt s ! u" for u
    by (simp add: set_status_def)
  show ?thesis
  proof (rule sup_coreI)
    fix q v assume qv: "map_of (tasks ?s) q = Some v"
    then have q: "q \<noteq> ?p" and old: "map_of (tasks s) q = Some v"
      by (simp_all add: dict_simps split: if_splits)
    from inv old have ok: "entry_ok s q v" by (rule sup_core_entry)
    show "entry_ok ?s q v"
    proof (rule entry_ok_frame [OF ok])
      fix u assume "v = Some u"
      with ok q have "u < length (rt s)" "u \<noteq> t" by (auto simp: entry_ok_def)
      then show "u < length (rt ?s) \<and> rt ?s ! u = rt s ! u" by (simp add: other)
    qed simp_all
  next
    fix u assume u: "u < length (rt ?s)" "live (t_status (rt ?s ! u))"
    then have ut: "u \<noteq> t" using t by (auto simp: set_status_nth)
    with u have lu: "u < length (rt s)" "live (t_status (rt s ! u))" by (simp_all add: other)
    then have regu: "map_of (tasks s) (t_dev (rt s ! u)) = Some (Some u)" by (rule sup_core_live [OF inv])
    with reg ut have "t_dev (rt s ! u) \<noteq> ?p" by auto
    with regu lu ut show "map_of (tasks ?s) (t_dev (rt ?s ! u)) = Some (Some u)"
      by (simp add: other dict_simps)
  next
    fix q h assume "map_of (devices ?s) q = Some h"
    then show "h < length (rt ?s) \<and> t_dev (rt ?s ! h) = q" using sup_core_dev [OF inv] by simp
  next
    fix u assume "u \<in> opened ?s"
    then show "u < length (rt ?s)" using sup_core_opened [OF inv] by simp
  qed (use sup_core_distinct [OF inv] sup_core_distinct_devices [OF inv] in \<open>simp_all add: dict_simps\<close>)
qed

subsection \<open>Every step keeps the invariant\<close>

lemma placeholders_kept:
  assumes "sup_inv s" "sup_core s'" "started s' \<Longrightarrow> started s"
    and "\<And>q. map_of (tasks s') q = Some None \<Longrightarrow> map_of (tasks s) q = Some None"
  shows "sup_inv s'"
  using assms by (auto simp: sup_inv_iff)

lemma remove_device_tasks:
  "tasks (state_of (remove_device p s)) = tasks s \<or>
   tasks (state_of (remove_device p s)) = AList.delete p (tasks s)"
  "started (state_of (remove_device p s)) = started s"
  by (cases "dict_get (tasks s) p"; cases "map_of (devices s) p"; simp add: remove_device_cases)+

lemma remove_device_inv:
  assumes inv: "sup_inv s"
  shows "sup_inv (state_of (remove_device p s))"
proof (rule placeholders_kept [OF inv])
  show "sup_core (state_of (remove_device p s))"
    using inv by (simp add: sup_inv_def remove_device_core)
qed (use remove_device_tasks [of p s] in \<open>auto simp: dict_simps split: if_splits\<close>)

lemma task_event_inv:
  assumes inv: "sup_inv s" and r: "sup_step opn (EvTask t te) s = Some r"
  shows "sup_inv (state_of r)"
proof -
  have core: "sup_core s" using inv by (simp add: sup_inv_def)
  from r obtain st' where t: "t < length (rt s)"
    and st': "task_step te (t_status (rt s ! t)) = Some st'"
    and r': "r = task_effect t te (set_status t (\<lambda>_. st') s)"
    by (auto simp: task_status_of_def split: if_splits option.splits)
  show ?thesis
  proof (cases "te = TDoneCallback")
    case True
    with st' obtain c where c: "t_status (rt s ! t) = Exited c" "st' = Collected c"
      by (auto simp: task_step_done)
    have "r = Ok ((set_status t (\<lambda>_. Collected c) s)\<lparr>tasks := AList.delete (t_dev (rt s ! t)) (tasks s)\<rparr>)"
      using r' True c t done_callback_ok [OF core t c(1)] by simp
    moreover have "sup_core ((set_status t (\<lambda>_. Collected c) s)\<lparr>tasks := AList.delete (t_dev (rt s ! t)) (tasks s)\<rparr>)"
      by (rule done_callback_core [OF core t c(1)])
    ultimately show ?thesis
      by (auto intro: placeholders_kept [OF inv] simp: dict_simps split: if_splits)
  next
    case False
    have "sup_core (set_status t (\<lambda>_. st') s)"
      by (rule set_status_core [OF core]) (use task_step_keeps [OF st' False] in auto)
    moreover have "state_of r = set_status t (\<lambda>_. st') s \<or>
                   state_of r = (set_status t (\<lambda>_. st') s)\<lparr>gamepad_active := True\<rparr>"
      using r' False by (cases te) simp_all
    ultimately show ?thesis
      by (auto intro: placeholders_kept [OF inv])
  qed
qed

lemma sup_step_inv:
  assumes "sup_inv s" "sup_step opn e s = Some r"
  shows "sup_inv (state_of r)"
  using assms
proof (cases e)
  case (EvAdd p)
  with assms show ?thesis by (auto simp: add_device_inv)
next
  case (EvRemove p)
  with assms show ?thesis by (auto simp: remove_device_inv)
next
  case (EvTask t te)
  with assms show ?thesis by (simp add: task_event_inv)
qed

subsection \<open>Start, stop and the initial state\<close>

lemma start_loop_inv:
  assumes "sup_core s" "distinct ps" "\<forall>p \<in> set ps. dict_get (tasks s) p = None"
    and "\<forall>q. map_of (tasks s) q = Some None \<longrightarrow> q \<in> set ps"
    and "start_loop opn ps s = Ok s'"
  shows "sup_core s' \<and> (\<forall>q. map_of (tasks s') q \<noteq> Some None) \<and> started s' = started s"
  using assms
proof (induction ps arbitrary: s)
  case Nil
  then show ?case by auto
next
  case (Cons p ps)
  from Cons.prems(5) have o: "opn p = None" and run: "start_loop opn ps (created p s) = Ok s'"
    by (auto simp: create_monitor_task_eq split: option.splits)
  have "sup_core (created p s)"
    using Cons.prems(1,3) by (intro created_core) simp_all
  moreover have "\<forall>p' \<in> set ps. dict_get (tasks (created p s)) p' = None"
    using Cons.prems(2,3) by (auto simp: dict_simps)
  moreover have "\<forall>q. map_of (tasks (created p s)) q = Some None \<longrightarrow> q \<in> set ps"
    using Cons.prems(4) by (auto simp: dict_simps)
  ultimately show ?case using Cons.IH [OF _ _ _ _ run] Cons.prems(2) by simp
qed

text \<open>\<open>start()\<close> on a supervisor whose entries are all placeholders.\<close>

lemma start_inv:
  assumes core: "sup_core s" and placeholders: "\<forall>(p, v) \<in> set (tasks s). v = None"
    and ok: "start opn s = Ok s'"
  shows "sup_inv s'"
proof -
  have d: "distinct (map fst (tasks s))" using core by (rule sup_core_distinct)
  with placeholders have none: "\<forall>p v. map_of (tasks s) p = Some v \<longrightarrow> v = None"
    by (simp add: ball_set_map_of)
  have "\<forall>p \<in> set (map fst (tasks s)). dict_get (tasks (s\<lparr>started := True\<rparr>)) p = None"
    using none by (auto simp: dict_get_def split: option.splits)
  moreover have "\<forall>q. map_of (tasks (s\<lparr>started := True\<rparr>)) q = Some None \<longrightarrow> q \<in> set (map fst (tasks s))"
    by (force dest: map_of_SomeD)
  moreover have "start_loop opn (map fst (tasks s)) (s\<lparr>started := True\<rparr>) = Ok s'"
    using ok by (simp add: start_def)
  ultimately have "sup_core s' \<and> (\<forall>q. map_of (tasks s') q \<noteq> Some None) \<and> started s' = True"
    using start_loop_inv [of "s\<lparr>started := True\<rparr>" "map fst (tasks s)" opn s'] core d by simp
  then show ?thesis by (simp add: sup_inv_iff)
qed

lemma set_init_devices_fields [simp]:
  "rt (set_init_devices ps s) = rt s" "devices (set_init_devices ps s) = devices s"
  "opened (set_init_devices ps s) = opened s" "started (set_init_devices ps s) = started s"
  "gamepad_active (set_init_devices ps s) = gamepad_active s"
  by (induction ps arbitrary: s; simp)+

lemma set_init_devices_tasks:
  "tasks (set_init_devices ps s) = fold (\<lambda>p d. AList.update p None d) ps (tasks s)"
  by (induction ps arbitrary: s) simp_all

lemma fold_update_None:
  assumes "distinct (map fst d)" "\<forall>(p, v) \<in> set d. v = None"
  shows "distinct (map fst (fold (\<lambda>p d. AList.update p None d) ps d))
       \<and> (\<forall>(p, v) \<in> set (fold (\<lambda>p d. AList.update p None d) ps d). v = None)"
  using assms
proof (induction ps arbitrary: d)
  case Nil
  then show ?case by simp
next
  case (Cons p ps)
  have "distinct (map fst (AList.update p None d))" using Cons.prems(1) by (simp add: dict_simps)
  moreover have "\<forall>(q, v) \<in> set (AList.update p None d). v = None"
    using Cons.prems by (auto simp: ball_set_map_of dict_simps)
  ultimately show ?case using Cons.IH by simp
qed

lemma init_core:
  "sup_core (set_init_devices ps watcher_init)
   \<and> (\<forall>(p, v) \<in> set (tasks (set_init_devices ps watcher_init)). v = None)"
proof -
  let ?d = "tasks (set_init_devices ps watcher_init)"
  have f: "distinct (map fst ?d) \<and> (\<forall>(p, v) \<in> set ?d. v = None)"
    using fold_update_None [of "[]" ps] by (simp add: set_init_devices_tasks watcher_init_def)
  then have "\<forall>(p, v) \<in> set ?d. entry_ok (set_init_devices ps watcher_init) p v"
    by (auto simp: entry_ok_def)
  with f show ?thesis by (simp add: sup_core_def watcher_init_def)
qed

lemma cancel_all_core: "sup_core s \<Longrightarrow> sup_core (state_of (cancel_all ts s))"
  by (induction ts s rule: cancel_all.induct) (simp_all add: cancel_task_core)

lemma cancel_all_started: "started (state_of (cancel_all ts s)) = started s"
  by (induction ts s rule: cancel_all.induct) simp_all

lemma stop_begin_inv:
  assumes "sup_inv s"
  shows "sup_inv (state_of (stop_begin s))"
  using assms cancel_all_core [of "s\<lparr>started := False\<rparr>"] cancel_all_started [of _ "s\<lparr>started := False\<rparr>"]
  by (simp add: sup_inv_def stop_begin_def)

subsection \<open>Reachable supervisor states\<close>

text \<open>
  The states the supervisor passes through in \<open>main()\<close>: \<open>set_init_devices\<close> with the
  discovered paths and \<open>start()\<close> (no loop iteration runs between them), then any
  interleaving of hotplug callbacks, monitor-task steps and done callbacks, the bridge's
  \<open>get_and_reset_active\<close>, and the first part of \<open>stop()\<close>. Which device opens succeed
  is chosen afresh at every step.
\<close>

inductive sup_reach :: "watcher \<Rightarrow> bool" where
  boot: "start opn (set_init_devices ps watcher_init) = Ok s \<Longrightarrow> sup_reach s"
| step: "sup_reach s \<Longrightarrow> sup_step opn e s = Some r \<Longrightarrow> sup_reach (state_of r)"
| sample: "sup_reach s \<Longrightarrow> sup_reach (snd (get_and_reset_active s))"
| stop: "sup_reach s \<Longrightarrow> sup_reach (state_of (stop_begin s))"

lemma sup_reach_inv: "sup_reach s \<Longrightarrow> sup_inv s"
proof (induction rule: sup_reach.induct)
  case (boot opn ps s)
  with init_core show ?case by (blast intro: start_inv)
next
  case (step s opn e r)
  from step.IH step.hyps(2) show ?case by (rule sup_step_inv)
next
  case (sample s)
  then show ?case by (simp add: get_and_reset_active_def sup_inv_def)
next
  case (stop s)
  from stop.IH show ?case by (rule stop_begin_inv)
qed

end
