(* ===== verification/Watcher_Props.thy ===== *)
theory Watcher_Props
  imports Watcher_Inv
begin

text \<open>
  Properties of the supervisor \<open>GamepadsWatcher\<close>: the safety property that no path
  ever has two live monitor tasks, the behaviour of \<open>add_device\<close>, \<open>remove_device\<close>,
  \<open>start\<close> and \<open>stop\<close> on every branch, and what happens on the paths where the code
  departs from its specification (double removal, re-plugging during removal, handles
  left open after a read error, a second \<open>start()\<close>, cancellation before a task's first
  step). \<open>sup_run\<close> is the event loop running a sequence of queued callbacks and task
  steps in order.
\<close>

fun sup_run :: "opener \<Rightarrow> sup_event list \<Rightarrow> watcher \<Rightarrow> watcher option" where
  "sup_run opn [] s = Some s"
| "sup_run opn (e # es) s =
     (case sup_step opn e s of None \<Rightarrow> None | Some r \<Rightarrow> sup_run opn es (state_of r))"

lemma sup_run_reach: "sup_reach s \<Longrightarrow> sup_run opn es s = Some s' \<Longrightarrow> sup_reach s'"
proof (induction es arbitrary: s)
  case Nil
  then show ?case by simp
next
  case (Cons e es)
  then obtain r where "sup_step opn e s = Some r" "sup_run opn es (state_of r) = Some s'"
    by (auto split: option.splits)
  with Cons show ?case by (blast intro: sup_reach.step)
qed

lemma alive_live: "alive st \<Longrightarrow> live st"
  by (cases st) simp_all

definition ev3 :: path where
  "ev3 = ''/dev/input/event3''"

definition boot3 :: watcher where
  "boot3 = \<lparr>gamepad_active = False, started = True, tasks = [(ev3, Some 0)],
             devices = [(ev3, 0)], rt = [\<lparr>t_dev = ev3, t_status = Created\<rparr>], opened = {0}\<rparr>"

lemma boot3_start: "start (\<lambda>_. None) (set_init_devices [ev3] watcher_init) = Ok boot3"
  by (simp add: boot3_def start_def watcher_init_def create_monitor_task_def)

lemma boot3_reach: "sup_reach boot3"
  by (rule sup_reach.boot [OF boot3_start])

lemma boot3_inv: "sup_inv boot3"
  by (simp add: boot3_def sup_inv_def sup_core_def entry_ok_def)

subsection \<open>No path is monitored twice\<close>

text \<open>C1: in every state the running program can reach, two live monitor tasks for the
  same device path are the same task.\<close>

theorem at_most_one_monitor:
  assumes "sup_reach s" and "t1 < length (rt s)" and "t2 < length (rt s)"
    and "alive (t_status (rt s ! t1))" and "alive (t_status (rt s ! t2))"
    and "t_dev (rt s ! t1) = t_dev (rt s ! t2)"
  shows "t1 = t2"
proof -
  have core: "sup_core s" using sup_reach_inv [OF assms(1)] by (simp add: sup_inv_def)
  have "map_of (tasks s) (t_dev (rt s ! t1)) = Some (Some t1)"
    using core assms(2) alive_live [OF assms(4)] by (rule sup_core_live)
  moreover have "map_of (tasks s) (t_dev (rt s ! t2)) = Some (Some t2)"
    using core assms(3) alive_live [OF assms(5)] by (rule sup_core_live)
  ultimately show ?thesis using assms(6) by (metis option.inject)
qed

theorem at_most_one_monitor_witness:
  "sup_reach boot3 \<and> (0::nat) < length (rt boot3) \<and> alive (t_status (rt boot3 ! 0))
   \<and> t_dev (rt boot3 ! 0) = t_dev (rt boot3 ! 0) \<and> (0::nat) = 0"
proof -
  have l: "(0::nat) < length (rt boot3)" and a: "alive (t_status (rt boot3 ! 0))"
    by (simp_all add: boot3_def)
  have "(0::nat) = 0" using at_most_one_monitor [OF boot3_reach l l a a refl] .
  with l a boot3_reach show ?thesis by simp
qed

subsection \<open>Every operation keeps the invariant\<close>

text \<open>C2: every hotplug callback, monitor-task step and done callback, the bridge's
  sample-and-reset and the cancelling part of \<open>stop()\<close> keep the supervisor invariant,
  whether the operation returns or raises.\<close>

theorem supervisor_ops_keep_invariant:
  assumes "sup_inv s"
  shows "(sup_step opn e s = Some r \<longrightarrow> sup_inv (state_of r))
       \<and> sup_inv (snd (get_and_reset_active s)) \<and> sup_inv (state_of (stop_begin s))"
  using assms sup_step_inv [OF assms] stop_begin_inv [OF assms]
  by (simp add: get_and_reset_active_def sup_inv_def)

theorem supervisor_ops_keep_invariant_witness:
  "sup_inv boot3 \<and> sup_inv (state_of (remove_device ev3 boot3))"
proof -
  have "sup_step (\<lambda>_. None) (EvRemove ev3) boot3 = Some (remove_device ev3 boot3)" by simp
  then show ?thesis
    using supervisor_ops_keep_invariant [OF boot3_inv, of "\<lambda>_. None" "EvRemove ev3"] boot3_inv
    by simp
qed

subsection \<open>Starting the supervisor\<close>

lemma start_loop_Ok:
  "\<forall>p \<in> set ps. opn p = None \<Longrightarrow> \<exists>s'. start_loop opn ps s = Ok s'"
  by (induction ps arbitrary: s) (simp_all add: create_monitor_task_eq)

lemma start_loop_rt:
  "start_loop opn ps s = Ok s' \<Longrightarrow> rt s' = rt s @ map (\<lambda>p. \<lparr>t_dev = p, t_status = Created\<rparr>) ps"
  by (induction ps arbitrary: s) (auto simp: create_monitor_task_eq split: option.splits)

lemma start_loop_keys:
  "start_loop opn ps s = Ok s' \<Longrightarrow> fst ` set (tasks s') = fst ` set (tasks s) \<union> set ps"
  by (induction ps arbitrary: s) (auto simp: create_monitor_task_eq dom_update split: option.splits)

lemma start_loop_started:
  "start_loop opn ps s = Ok s' \<Longrightarrow> started s' = started s"
  by (induction ps arbitrary: s) (auto simp: create_monitor_task_eq split: option.splits)

lemma update_new_key:
  "k \<notin> fst ` set d \<Longrightarrow> AList.update k v d = d @ [(k, v)]"
  by (induction d) auto

lemma set_init_devices_tasks_distinct:
  "distinct ps \<Longrightarrow> set ps \<inter> fst ` set (tasks s) = {} \<Longrightarrow>
     tasks (set_init_devices ps s) = tasks s @ map (\<lambda>p. (p, None)) ps"
  by (induction ps arbitrary: s) (auto simp: update_new_key)

text \<open>C11: \<open>start()\<close> after \<open>set_init_devices\<close> with the discovered (distinct) paths,
  when every device opens, returns and leaves exactly one freshly created monitor task per
  path, in discovery order, each registered under its path with its device open.\<close>

theorem start_monitors_registered:
  assumes "distinct ps" and "\<forall>p \<in> set ps. opn p = None"
  shows "\<exists>s. start opn (set_init_devices ps watcher_init) = Ok s \<and> sup_reach s \<and> started s
     \<and> rt s = map (\<lambda>p. \<lparr>t_dev = p, t_status = Created\<rparr>) ps
     \<and> (\<forall>p \<in> set ps. \<exists>t. map_of (tasks s) p = Some (Some t) \<and> t_dev (rt s ! t) = p
           \<and> map_of (devices s) p = Some t \<and> t \<in> opened s)"
proof -
  let ?s0 = "set_init_devices ps watcher_init"
  have keys0: "map fst (tasks ?s0) = ps"
    using set_init_devices_tasks_distinct [OF assms(1), of watcher_init]
    by (simp add: watcher_init_def comp_def)
  obtain s where loop: "start_loop opn ps (?s0\<lparr>started := True\<rparr>) = Ok s"
    using start_loop_Ok [OF assms(2)] by blast
  then have ok: "start opn ?s0 = Ok s" by (simp add: start_def keys0)
  have reach: "sup_reach s" using ok by (rule sup_reach.boot)
  then have inv: "sup_inv s" by (rule sup_reach_inv)
  have rt: "rt s = map (\<lambda>p. \<lparr>t_dev = p, t_status = Created\<rparr>) ps"
    using start_loop_rt [OF loop] by (simp add: watcher_init_def)
  have st: "started s" using start_loop_started [OF loop] by simp
  have "\<exists>t. map_of (tasks s) p = Some (Some t) \<and> t_dev (rt s ! t) = p
           \<and> map_of (devices s) p = Some t \<and> t \<in> opened s" if p: "p \<in> set ps" for p
  proof -
    have "p \<in> fst ` set (tasks s)" using start_loop_keys [OF loop] p by simp
    then obtain v where v: "map_of (tasks s) p = Some v" by (auto simp: dict_has_iff_key [symmetric] dict_has_def)
    with inv st obtain t where t: "v = Some t" by (cases v) (auto simp: sup_inv_iff)
    have "entry_ok s p (Some t)" using inv v t by (simp add: sup_inv_def sup_core_entry)
    moreover from this have "t_status (rt s ! t) = Created" by (simp add: entry_ok_def rt)
    ultimately show ?thesis using v t by (simp add: entry_ok_def)
  qed
  with ok reach st rt show ?thesis by blast
qed

theorem start_monitors_registered_witness:
  "distinct [ev3] \<and> (\<lambda>_. None) ev3 = (None :: nat option)
   \<and> (\<exists>s. start (\<lambda>_. None) (set_init_devices [ev3] watcher_init) = Ok s \<and> started s
          \<and> rt s = [\<lparr>t_dev = ev3, t_status = Created\<rparr>])"
  using start_monitors_registered [of "[ev3]" "\<lambda>_. None"] by auto

subsection \<open>Adding and removing devices\<close>

text \<open>C12: a hotplug add for a path the supervisor already tracks, running or registered,
  changes nothing (the "already present" warning).\<close>

theorem add_device_tracked_noop:
  assumes "sup_inv s" and "map_of (tasks s) p \<noteq> None"
  shows "add_device opn p s = Ok s"
proof -
  obtain v where v: "map_of (tasks s) p = Some v" using assms(2) by blast
  show ?thesis
  proof (cases v)
    case (Some t)
    with v show ?thesis by (simp add: add_device_def dict_get_def)
  next
    case None
    with v assms(1) have "\<not> started s" by (auto simp: sup_inv_iff)
    moreover have "AList.update p None (tasks s) = tasks s" using v None by (simp add: update_triv)
    ultimately show ?thesis using v None by (simp add: add_device_def dict_get_def)
  qed
qed

theorem add_device_tracked_noop_witness:
  "sup_inv boot3 \<and> map_of (tasks boot3) ev3 \<noteq> None \<and> add_device (\<lambda>_. None) ev3 boot3 = Ok boot3"
proof -
  have t: "map_of (tasks boot3) ev3 \<noteq> None" by (simp add: boot3_def)
  show ?thesis using boot3_inv t add_device_tracked_noop [OF boot3_inv t] by simp
qed

text \<open>Removing a path whose task is still reading: the task is cancelled, the device
  object closed and dropped, and the \<open>tasks\<close> entry stays until the done callback.\<close>

lemma running_entry:
  assumes "sup_inv s" "map_of (tasks s) p = Some (Some t)" "t_status (rt s ! t) \<in> {Created, Reading}"
  shows "t < length (rt s)" "t_dev (rt s ! t) = p" "map_of (devices s) p = Some t" "t \<in> opened s"
  using sup_core_entry [of s p "Some t"] assms by (auto simp: sup_inv_def entry_ok_def)

lemma remove_running_eq:
  assumes "sup_inv s" "map_of (tasks s) p = Some (Some t)" "t_status (rt s ! t) \<in> {Created, Reading}"
  shows "remove_device p s =
           Ok ((cancel_task t s)\<lparr>opened := opened s - {t}, devices := AList.delete p (devices s)\<rparr>)"
  using running_entry [OF assms] assms(2) by (simp add: remove_device_cases dict_simps)

lemma cancel_task_nth:
  "t < length (rt s) \<Longrightarrow> rt (cancel_task t s) ! u =
     (if u = t then (rt s ! t)\<lparr>t_status := cancel_status (t_status (rt s ! t))\<rparr> else rt s ! u)"
  by (simp add: cancel_task_def set_status_nth set_status_def)

text \<open>C9: \<open>remove_device\<close> on a path whose monitor is running cancels that task (and no
  other), closes and forgets its device object, and keeps the \<open>tasks\<close> entry.\<close>

theorem remove_running_device:
  assumes "sup_inv s" and "map_of (tasks s) p = Some (Some t)"
    and "t_status (rt s ! t) \<in> {Created, Reading}"
  shows "\<exists>s1. remove_device p s = Ok s1 \<and> t_status (rt s1 ! t) = cancel_status (t_status (rt s ! t))
     \<and> (\<forall>u. u \<noteq> t \<longrightarrow> rt s1 ! u = rt s ! u) \<and> t \<notin> opened s1 \<and> map_of (devices s1) p = None
     \<and> map_of (tasks s1) p = Some (Some t)"
  using remove_running_eq [OF assms] running_entry [OF assms] assms(2)
  by (simp add: cancel_task_nth dict_simps)

theorem remove_running_device_witness:
  "sup_inv boot3 \<and> map_of (tasks boot3) ev3 = Some (Some 0) \<and> t_status (rt boot3 ! 0) \<in> {Created, Reading}
   \<and> remove_device ev3 boot3 =
       Ok (boot3\<lparr>rt := [\<lparr>t_dev = ev3, t_status = CancelReq False\<rparr>], opened := {}, devices := []\<rparr>)"
proof -
  have h: "map_of (tasks boot3) ev3 = Some (Some 0)" "t_status (rt boot3 ! 0) \<in> {Created, Reading}"
    by (simp_all add: boot3_def)
  obtain s1 where "remove_device ev3 boot3 = Ok s1"
    using remove_running_device [OF boot3_inv h] by blast
  then show ?thesis using boot3_inv h
    by (simp add: boot3_def remove_device_def cancel_task_def set_status_def dict_get_def)
qed

text \<open>After such a removal the event loop runs the cancelled coroutine, which ends, and then
  its done callback, which deletes the path from \<open>tasks\<close>.\<close>

lemma removal_completion:
  assumes inv: "sup_inv s" and tp: "map_of (tasks s) p = Some (Some t)"
    and st: "t_status (rt s ! t) \<in> {Created, Reading}" and r: "remove_device p s = Ok s1"
  shows "\<exists>s3. sup_run opn [EvTask t TCancelled, EvTask t TDoneCallback] s1 = Some s3 \<and> sup_inv s3
     \<and> tasks s3 = AList.delete p (tasks s) \<and> devices s3 = devices s1 \<and> opened s3 = opened s1
     \<and> started s3 = started s \<and> length (rt s3) = length (rt s) \<and> \<not> alive (t_status (rt s3 ! t))"
proof -
  note e = running_entry [OF inv tp st]
  have s1: "s1 = (cancel_task t s)\<lparr>opened := opened s - {t}, devices := AList.delete p (devices s)\<rparr>"
    using remove_running_eq [OF inv tp st] r by simp
  have inv1: "sup_inv s1" using remove_device_inv [OF inv, of p] r by simp
  define b where "b = (t_status (rt s ! t) = Reading)"
  have b: "t_status (rt s1 ! t) = CancelReq b"
    using st e(1) by (auto simp: s1 cancel_task_nth b_def)
  let ?c = "if b then CaughtCancel else UncaughtCancel"
  let ?s2 = "set_status t (\<lambda>_. Exited ?c) s1"
  have l1: "t < length (rt s1)" using e(1) by (simp add: s1)
  have step1: "sup_step opn (EvTask t TCancelled) s1 = Some (Ok ?s2)"
    using l1 b by (simp add: task_status_of_def)
  have inv2: "sup_inv ?s2" using sup_step_inv [OF inv1 step1] by simp
  have l2: "t < length (rt ?s2)" and st2: "t_status (rt ?s2 ! t) = Exited ?c"
    using l1 by (simp_all add: set_status_nth)
  have dev2: "t_dev (rt ?s2 ! t) = p" using l1 e(2) by (simp add: s1 cancel_task_nth)
  let ?s3 = "(set_status t (\<lambda>_. Collected ?c) ?s2)\<lparr>tasks := AList.delete p (tasks ?s2)\<rparr>"
  have step2: "sup_step opn (EvTask t TDoneCallback) ?s2 = Some (Ok ?s3)"
    using done_callback_ok [OF _ l2 st2] inv2 l2 st2 dev2
    by (simp add: task_status_of_def sup_inv_def)
  have inv3: "sup_inv ?s3" using sup_step_inv [OF inv2 step2] by simp
  have "sup_run opn [EvTask t TCancelled, EvTask t TDoneCallback] s1 = Some ?s3"
    using step1 step2 by simp
  moreover have "\<not> alive (t_status (rt ?s3 ! t))" using l1 by (simp add: set_status_nth)
  ultimately show ?thesis using inv3 by (auto simp: s1)
qed

text \<open>C10: the removal of a running device completes: once the cancelled coroutine has ended
  and its done callback has run, the path is no longer tracked, its device object is
  closed, no task for it is alive, and a further removal of the path changes nothing.\<close>

theorem removal_completes:
  assumes "sup_inv s" and "map_of (tasks s) p = Some (Some t)"
    and "t_status (rt s ! t) \<in> {Created, Reading}" and "remove_device p s = Ok s1"
  shows "\<exists>s3. sup_run opn [EvTask t TCancelled, EvTask t TDoneCallback] s1 = Some s3
     \<and> map_of (tasks s3) p = None \<and> t \<notin> opened s3
     \<and> (\<forall>u < length (rt s3). t_dev (rt s3 ! u) = p \<longrightarrow> \<not> alive (t_status (rt s3 ! u)))
     \<and> remove_device p s3 = Ok s3"
proof -
  obtain s3 where s3: "sup_run opn [EvTask t TCancelled, EvTask t TDoneCallback] s1 = Some s3"
    "sup_inv s3" "tasks s3 = AList.delete p (tasks s)" "opened s3 = opened s1"
    using removal_completion [OF assms] by blast
  have none: "map_of (tasks s3) p = None" using s3(3) by (simp add: dict_simps)
  have "t \<notin> opened s1" using remove_running_eq [OF assms(1-3)] assms(4) by simp
  moreover have "\<not> alive (t_status (rt s3 ! u))" if "u < length (rt s3)" "t_dev (rt s3 ! u) = p" for u
    using sup_core_live [of s3 u] s3(2) none that alive_live by (auto simp: sup_inv_def)
  moreover have "remove_device p s3 = Ok s3"
    using none by (simp add: remove_device_def dict_get_def dict_has_iff_key [symmetric] dict_has_def)
  ultimately show ?thesis using s3 none by auto
qed

definition boot3_removed :: watcher where
  "boot3_removed = boot3\<lparr>rt := [\<lparr>t_dev = ev3, t_status = CancelReq False\<rparr>], opened := {}, devices := []\<rparr>"

lemma boot3_remove: "remove_device ev3 boot3 = Ok boot3_removed"
  by (simp add: boot3_def boot3_removed_def remove_device_def cancel_task_def set_status_def dict_get_def)

lemma boot3_running: "map_of (tasks boot3) ev3 = Some (Some 0)" "t_status (rt boot3 ! 0) \<in> {Created, Reading}"
  by (simp_all add: boot3_def)

theorem removal_completes_witness:
  "sup_inv boot3 \<and> map_of (tasks boot3) ev3 = Some (Some 0) \<and> t_status (rt boot3 ! 0) \<in> {Created, Reading}
   \<and> remove_device ev3 boot3 = Ok boot3_removed
   \<and> (\<exists>s3. sup_run (\<lambda>_. None) [EvTask 0 TCancelled, EvTask 0 TDoneCallback] boot3_removed = Some s3
          \<and> map_of (tasks s3) ev3 = None \<and> remove_device ev3 s3 = Ok s3)"
  using removal_completes [OF boot3_inv boot3_running boot3_remove, of "\<lambda>_. None"]
    boot3_inv boot3_running boot3_remove by blast

text \<open>C19: a second hotplug remove for the same path that arrives before the done callback of
  the first has run raises \<open>KeyError\<close> in \<open>self.devices[device]\<close>, after cancelling the
  task again; the spec expects a repeated removal to be a no-op.\<close>

theorem remove_twice_raises:
  assumes "sup_inv s" and "map_of (tasks s) p = Some (Some t)"
    and "t_status (rt s ! t) \<in> {Created, Reading}" and "remove_device p s = Ok s1"
  shows "remove_device p s1 = Raised KeyError (cancel_task t s1)"
proof -
  have "s1 = (cancel_task t s)\<lparr>opened := opened s - {t}, devices := AList.delete p (devices s)\<rparr>"
    using remove_running_eq [OF assms(1-3)] assms(4) by simp
  then have "dict_get (tasks s1) p = Some t" "map_of (devices s1) p = None"
    using assms(2) by (simp_all add: dict_simps)
  then show ?thesis by (rule remove_device_cases(2))
qed

theorem remove_twice_raises_witness:
  "sup_inv boot3 \<and> map_of (tasks boot3) ev3 = Some (Some 0) \<and> t_status (rt boot3 ! 0) \<in> {Created, Reading}
   \<and> remove_device ev3 boot3 = Ok boot3_removed
   \<and> remove_device ev3 boot3_removed = Raised KeyError (cancel_task 0 boot3_removed)"
  using remove_twice_raises [OF boot3_inv boot3_running boot3_remove] boot3_inv boot3_running boot3_remove
  by blast

text \<open>C20: a device unplugged and plugged back before the cancelled monitor has finished is
  left unmonitored: the hotplug add finds the old task still in \<open>tasks\<close> and is ignored,
  and once the old task is collected the path is not tracked and no task for it is alive,
  although the supervisor is running and the device is attached.\<close>

theorem replug_during_removal_unmonitored:
  assumes "sup_inv s" and "started s" and "map_of (tasks s) p = Some (Some t)"
    and "t_status (rt s ! t) \<in> {Created, Reading}" and "remove_device p s = Ok s1"
  shows "add_device opn p s1 = Ok s1
     \<and> (\<exists>s3. sup_run opn [EvTask t TCancelled, EvTask t TDoneCallback] s1 = Some s3 \<and> started s3
            \<and> map_of (tasks s3) p = None
            \<and> (\<forall>u < length (rt s3). t_dev (rt s3 ! u) = p \<longrightarrow> \<not> alive (t_status (rt s3 ! u))))"
proof -
  have "tasks s1 = tasks s" using remove_running_eq [OF assms(1,3,4)] assms(5) by simp
  then have add: "add_device opn p s1 = Ok s1" using assms(3) by (simp add: add_device_def dict_get_def)
  obtain s3 where s3: "sup_run opn [EvTask t TCancelled, EvTask t TDoneCallback] s1 = Some s3"
    "sup_inv s3" "tasks s3 = AList.delete p (tasks s)" "started s3 = started s"
    using removal_completion [OF assms(1,3,4,5)] by blast
  have none: "map_of (tasks s3) p = None" using s3(3) by (simp add: dict_simps)
  have "\<not> alive (t_status (rt s3 ! u))" if "u < length (rt s3)" "t_dev (rt s3 ! u) = p" for u
    using sup_core_live [of s3 u] s3(2) none that alive_live by (auto simp: sup_inv_def)
  with add s3 none assms(2) show ?thesis by auto
qed

theorem replug_during_removal_unmonitored_witness:
  "sup_inv boot3 \<and> started boot3 \<and> map_of (tasks boot3) ev3 = Some (Some 0)
   \<and> t_status (rt boot3 ! 0) \<in> {Created, Reading} \<and> remove_device ev3 boot3 = Ok boot3_removed
   \<and> add_device (\<lambda>_. None) ev3 boot3_removed = Ok boot3_removed"
proof -
  have st: "started boot3" by (simp add: boot3_def)
  show ?thesis
    using replug_during_removal_unmonitored [OF boot3_inv st boot3_running boot3_remove, of "\<lambda>_. None"]
      boot3_inv st boot3_running boot3_remove by blast
qed

subsection \<open>Device objects left open\<close>

text \<open>The done callback of a task that ended on its own (a read error) deletes its path
  from \<open>tasks\<close> and nothing else.\<close>

lemma collect_exited:
  assumes inv: "sup_inv s" and t: "t < length (rt s)" and st: "t_status (rt s ! t) = Exited c"
  shows "\<exists>s'. sup_step opn (EvTask t TDoneCallback) s = Some (Ok s') \<and> sup_inv s'
     \<and> tasks s' = AList.delete (t_dev (rt s ! t)) (tasks s) \<and> devices s' = devices s
     \<and> opened s' = opened s \<and> length (rt s') = length (rt s) \<and> t_status (rt s' ! t) = Collected c"
proof -
  let ?s' = "(set_status t (\<lambda>_. Collected c) s)\<lparr>tasks := AList.delete (t_dev (rt s ! t)) (tasks s)\<rparr>"
  have step: "sup_step opn (EvTask t TDoneCallback) s = Some (Ok ?s')"
    using done_callback_ok [OF _ t st] inv t st by (simp add: task_status_of_def sup_inv_def)
  moreover have "sup_inv ?s'" using sup_step_inv [OF inv step] by simp
  ultimately show ?thesis using t by (simp add: set_status_nth)
qed

text \<open>C21: when a monitor's read fails (\<open>ENODEV\<close> on a physical disconnect or any other
  errno), the task ends and its done callback drops the path from \<open>tasks\<close>, but the
  device object stays in \<open>devices\<close> and open, and the hotplug remove that follows finds
  no task and does not close it; the spec says the handle is destroyed when the task
  finishes for any reason.\<close>

theorem read_error_leaves_device_open:
  assumes "sup_inv s" and "map_of (tasks s) p = Some (Some t)" and "t_status (rt s ! t) = Reading"
  shows "\<exists>s2. sup_run opn [EvTask t (TReadError n), EvTask t TDoneCallback] s = Some s2
     \<and> map_of (tasks s2) p = None \<and> map_of (devices s2) p = Some t \<and> t \<in> opened s2
     \<and> remove_device p s2 = Ok s2"
proof -
  have rd: "t_status (rt s ! t) \<in> {Created, Reading}" using assms(3) by simp
  note e = running_entry [OF assms(1,2) rd]
  let ?c = "if n = 19 then NoDevice else ReadFailed"
  let ?s1 = "set_status t (\<lambda>_. Exited ?c) s"
  have step1: "sup_step opn (EvTask t (TReadError n)) s = Some (Ok ?s1)"
    using e(1) assms(3) by (simp add: task_status_of_def)
  have inv1: "sup_inv ?s1" using sup_step_inv [OF assms(1) step1] by simp
  have l1: "t < length (rt ?s1)" "t_status (rt ?s1 ! t) = Exited ?c" "t_dev (rt ?s1 ! t) = p"
    using e(1,2) by (simp_all add: set_status_nth)
  obtain s2 where s2: "sup_step opn (EvTask t TDoneCallback) ?s1 = Some (Ok s2)"
    "tasks s2 = AList.delete p (tasks ?s1)" "devices s2 = devices ?s1" "opened s2 = opened ?s1"
    using collect_exited [OF inv1 l1(1,2), of opn] l1(3) by auto
  have none: "map_of (tasks s2) p = None" using s2(2) by (simp add: dict_simps)
  have "remove_device p s2 = Ok s2"
    using none by (simp add: remove_device_def dict_get_def dict_has_iff_key [symmetric] dict_has_def)
  with step1 s2 none e show ?thesis by simp
qed

definition boot3_reading :: watcher where
  "boot3_reading = boot3\<lparr>rt := [\<lparr>t_dev = ev3, t_status = Reading\<rparr>]\<rparr>"

lemma boot3_reading_inv: "sup_inv boot3_reading"
  by (simp add: boot3_reading_def boot3_def sup_inv_def sup_core_def entry_ok_def)

theorem read_error_leaves_device_open_witness:
  "sup_inv boot3_reading \<and> map_of (tasks boot3_reading) ev3 = Some (Some 0)
   \<and> t_status (rt boot3_reading ! 0) = Reading
   \<and> (\<exists>s2. sup_run (\<lambda>_. None) [EvTask 0 (TReadError 19), EvTask 0 TDoneCallback] boot3_reading = Some s2
          \<and> 0 \<in> opened s2 \<and> remove_device ev3 s2 = Ok s2)"
proof -
  have h: "map_of (tasks boot3_reading) ev3 = Some (Some 0)" "t_status (rt boot3_reading ! 0) = Reading"
    by (simp_all add: boot3_reading_def boot3_def)
  show ?thesis
    using read_error_leaves_device_open [OF boot3_reading_inv h, of "\<lambda>_. None" 19] boot3_reading_inv h
    by blast
qed

subsection \<open>Stopping the supervisor\<close>

lemma cancel_status_idem: "cancel_status (cancel_status st) = cancel_status st"
  by (cases st) simp_all

lemma cancel_all_Ok:
  "\<forall>v \<in> set ts. v \<noteq> None \<Longrightarrow> \<exists>s'. cancel_all ts s = Ok s' \<and> tasks s' = tasks s
     \<and> devices s' = devices s \<and> opened s' = opened s \<and> started s' = started s
     \<and> gamepad_active s' = gamepad_active s \<and> length (rt s') = length (rt s)
     \<and> (\<forall>u < length (rt s). t_dev (rt s' ! u) = t_dev (rt s ! u)
          \<and> t_status (rt s' ! u) = (if Some u \<in> set ts then cancel_status (t_status (rt s ! u))
                                     else t_status (rt s ! u)))"
proof (induction ts s rule: cancel_all.induct)
  case (1 s)
  then show ?case by simp
next
  case (2 ts s)
  then show ?case by simp
next
  case (3 t ts s)
  then obtain s' where s': "cancel_all ts (cancel_task t s) = Ok s'" "tasks s' = tasks s"
    "devices s' = devices s" "opened s' = opened s" "started s' = started s"
    "gamepad_active s' = gamepad_active s" "length (rt s') = length (rt s)"
    "\<forall>u < length (rt s). t_dev (rt s' ! u) = t_dev (rt (cancel_task t s) ! u)
          \<and> t_status (rt s' ! u) = (if Some u \<in> set ts then cancel_status (t_status (rt (cancel_task t s) ! u))
                                     else t_status (rt (cancel_task t s) ! u))"
    by (auto simp: cancel_task_def)
  show ?case
  proof (intro exI conjI allI impI)
    fix u assume u: "u < length (rt s)"
    show "t_dev (rt s' ! u) = t_dev (rt s ! u)" using s'(8) u by (simp add: cancel_task_def)
    show "t_status (rt s' ! u) = (if Some u \<in> set (Some t # ts) then cancel_status (t_status (rt s ! u))
                                  else t_status (rt s ! u))"
      using s'(8) u by (auto simp: cancel_task_def set_status_nth cancel_status_idem)
  qed (use s' in simp_all)
qed

text \<open>C7: \<open>stop()\<close> on a started supervisor does not raise before its \<open>await\<close>: it
  clears \<open>started\<close> and requests cancellation of every monitor task, so that none is left
  created or reading; the dicts are unchanged.\<close>

theorem stop_cancels_every_monitor:
  assumes "sup_inv s" and "started s"
  shows "\<exists>s'. stop_begin s = Ok s' \<and> \<not> started s' \<and> tasks s' = tasks s \<and> devices s' = devices s
     \<and> (\<forall>u < length (rt s'). t_status (rt s' ! u) \<noteq> Created \<and> t_status (rt s' ! u) \<noteq> Reading)"
proof -
  have core: "sup_core s" using assms(1) by (simp add: sup_inv_def)
  have some: "\<forall>v \<in> set (map snd (tasks s)). v \<noteq> None"
    using assms by (auto simp: sup_inv_def)
  obtain s' where s': "cancel_all (map snd (tasks s)) (s\<lparr>started := False\<rparr>) = Ok s'"
    "tasks s' = tasks s" "devices s' = devices s" "started s' = False" "length (rt s') = length (rt s)"
    "\<forall>u < length (rt s). t_status (rt s' ! u) =
        (if Some u \<in> set (map snd (tasks s)) then cancel_status (t_status (rt s ! u)) else t_status (rt s ! u))"
    using cancel_all_Ok [OF some, of "s\<lparr>started := False\<rparr>"] by auto
  have "t_status (rt s' ! u) \<noteq> Created \<and> t_status (rt s' ! u) \<noteq> Reading" if u: "u < length (rt s')" for u
  proof (cases "t_status (rt s ! u) \<in> {Created, Reading}")
    case True
    then have "live (t_status (rt s ! u))" by auto
    with core u s'(5) have "map_of (tasks s) (t_dev (rt s ! u)) = Some (Some u)"
      by (simp add: sup_core_live)
    then have "Some u \<in> set (map snd (tasks s))" by (force dest: map_of_SomeD)
    then show ?thesis using s'(6) u s'(5) by (simp add: cancel_status_cases)
  next
    case False
    then show ?thesis using s'(6) u s'(5) by (auto simp: cancel_status_cases)
  qed
  with s' show ?thesis by (auto simp: stop_begin_def)
qed

theorem stop_cancels_every_monitor_witness:
  "sup_inv boot3 \<and> started boot3
   \<and> stop_begin boot3 = Ok (boot3\<lparr>started := False, rt := [\<lparr>t_dev = ev3, t_status = CancelReq False\<rparr>]\<rparr>)"
proof -
  have st: "started boot3" by (simp add: boot3_def)
  obtain s' where "stop_begin boot3 = Ok s'" using stop_cancels_every_monitor [OF boot3_inv st] by blast
  then show ?thesis using boot3_inv st
    by (simp add: boot3_def stop_begin_def cancel_task_def set_status_def)
qed

definition quiet :: "watcher \<Rightarrow> bool" where
  "quiet s \<longleftrightarrow> \<not> started s \<and> (\<forall>u < length (rt s). t_status (rt s ! u) \<noteq> Created \<and> t_status (rt s ! u) \<noteq> Reading)"

lemma quiet_set_status:
  assumes "quiet s" "t < length (rt s)" "st' \<noteq> Created" "st' \<noteq> Reading"
  shows "quiet (set_status t (\<lambda>_. st') s)"
  using assms by (auto simp: quiet_def set_status_nth)

lemma quiet_cancel:
  assumes "quiet s"
  shows "quiet (cancel_task t s)"
proof (cases "t < length (rt s)")
  case True
  with assms show ?thesis by (auto simp: quiet_def cancel_task_nth cancel_status_cases)
next
  case False
  with assms show ?thesis by (simp add: cancel_task_def set_status_beyond)
qed

text \<open>C18: once \<open>stop()\<close> has cancelled every monitor, no later hotplug callback, task
  step or done callback starts a monitor again or sets the activity flag: an add only
  registers a placeholder, and no task is left that could read an input event.\<close>

theorem stopped_supervisor_stays_quiet:
  assumes "quiet s" and "sup_step opn e s = Some r"
  shows "quiet (state_of r) \<and> gamepad_active (state_of r) = gamepad_active s"
proof (cases e)
  case (EvAdd p)
  with assms show ?thesis
    by (auto simp: quiet_def add_device_def split: option.splits)
next
  case (EvRemove p)
  then have r: "r = remove_device p s" using assms(2) by simp
  show ?thesis
  proof (cases "dict_get (tasks s) p")
    case None
    with r assms(1) show ?thesis by (simp add: remove_device_cases quiet_def)
  next
    case (Some t)
    have q: "quiet (cancel_task t s)" using assms(1) by (rule quiet_cancel)
    then have "quiet ((cancel_task t s)\<lparr>opened := o', devices := d'\<rparr>)" for o' d'
      by (simp add: quiet_def)
    with q Some r show ?thesis
      by (cases "map_of (devices s) p") (simp_all add: remove_device_cases cancel_task_def)
  qed
next
  case (EvTask t te)
  with assms(2) obtain st st' where t: "t < length (rt s)" and st: "st = t_status (rt s ! t)"
    and step: "task_step te st = Some st'" and r: "r = task_effect t te (set_status t (\<lambda>_. st') s)"
    by (auto simp: task_status_of_def split: if_splits option.splits)
  have "st \<noteq> Created" "st \<noteq> Reading" using assms(1) t st by (auto simp: quiet_def)
  with step have "st' \<noteq> Created \<and> st' \<noteq> Reading \<and> te \<noteq> TInput" by (cases te; cases st) auto
  then have q: "quiet (set_status t (\<lambda>_. st') s)" using quiet_set_status [OF assms(1) t] by simp
  show ?thesis
  proof (cases "te = TDoneCallback")
    case True
    with q r show ?thesis by (auto simp: finish_removing_device_def quiet_def)
  next
    case False
    with q r \<open>st' \<noteq> Created \<and> st' \<noteq> Reading \<and> te \<noteq> TInput\<close> show ?thesis by (cases te) simp_all
  qed
qed

definition boot3_stopped :: watcher where
  "boot3_stopped = boot3\<lparr>started := False, rt := [\<lparr>t_dev = ev3, t_status = CancelReq False\<rparr>]\<rparr>"

theorem stopped_supervisor_stays_quiet_witness:
  "quiet boot3_stopped \<and> sup_step (\<lambda>_. None) (EvAdd ev3) boot3_stopped = Some (Ok boot3_stopped)
   \<and> quiet boot3_stopped"
proof -
  have q: "quiet boot3_stopped" by (simp add: quiet_def boot3_stopped_def boot3_def)
  have st: "sup_step (\<lambda>_. None) (EvAdd ev3) boot3_stopped = Some (Ok boot3_stopped)"
    by (simp add: boot3_stopped_def boot3_def add_device_def dict_get_def)
  show ?thesis using stopped_supervisor_stays_quiet [OF q st] q st by simp
qed

fun cancel_pending :: "task_status \<Rightarrow> bool" where
  "cancel_pending (CancelReq b) = True"
| "cancel_pending _ = False"

text \<open>The event loop runs each cancelled monitor once: each ends and nothing else changes.\<close>

lemma drain_cancelled:
  assumes "distinct ts" "\<forall>t \<in> set ts. t < length (rt x)"
  shows "\<exists>x'. sup_run opn (map (\<lambda>t. EvTask t TCancelled) (filter (\<lambda>t. cancel_pending (t_status (rt x ! t))) ts)) x = Some x'
     \<and> length (rt x') = length (rt x)
     \<and> (\<forall>u < length (rt x). u \<notin> set ts \<longrightarrow> t_status (rt x' ! u) = t_status (rt x ! u))
     \<and> (\<forall>t \<in> set ts. if cancel_pending (t_status (rt x ! t)) then ended_cause (t_status (rt x' ! t)) \<noteq> None
                      else t_status (rt x' ! t) = t_status (rt x ! t))"
  using assms
proof (induction ts arbitrary: x)
  case Nil
  then show ?case by simp
next
  case (Cons t ts)
  show ?case
  proof (cases "cancel_pending (t_status (rt x ! t))")
    case True
    then obtain b where b: "t_status (rt x ! t) = CancelReq b" by (cases "t_status (rt x ! t)") auto
    let ?c = "if b then CaughtCancel else UncaughtCancel"
    let ?x1 = "set_status t (\<lambda>_. Exited ?c) x"
    have t: "t < length (rt x)" using Cons.prems by simp
    have step: "sup_step opn (EvTask t TCancelled) x = Some (Ok ?x1)"
      using t b by (simp add: task_status_of_def)
    have same: "u \<noteq> t \<Longrightarrow> rt (set_status t g x) ! u = rt x ! u" for u g by (simp add: set_status_def)
    have f: "filter (\<lambda>t. cancel_pending (t_status (rt ?x1 ! t))) ts = filter (\<lambda>t. cancel_pending (t_status (rt x ! t))) ts"
    proof (rule filter_cong [OF refl])
      fix t' assume "t' \<in> set ts"
      with Cons.prems(1) have "t' \<noteq> t" by auto
      then show "cancel_pending (t_status (rt ?x1 ! t')) = cancel_pending (t_status (rt x ! t'))"
        by (simp add: same)
    qed
    obtain x' where x': "sup_run opn (map (\<lambda>t. EvTask t TCancelled) (filter (\<lambda>t. cancel_pending (t_status (rt ?x1 ! t))) ts)) ?x1 = Some x'"
      "length (rt x') = length (rt ?x1)"
      "\<forall>u < length (rt ?x1). u \<notin> set ts \<longrightarrow> t_status (rt x' ! u) = t_status (rt ?x1 ! u)"
      "\<forall>t' \<in> set ts. if cancel_pending (t_status (rt ?x1 ! t')) then ended_cause (t_status (rt x' ! t')) \<noteq> None
                      else t_status (rt x' ! t') = t_status (rt ?x1 ! t')"
      using Cons.IH [of ?x1] Cons.prems by auto
    have "t_status (rt x' ! t) = Exited ?c" using x'(3) t Cons.prems(1) by (simp add: set_status_nth)
    then have head: "ended_cause (t_status (rt x' ! t)) \<noteq> None" by simp
    have rest: "\<forall>t' \<in> set ts. if cancel_pending (t_status (rt x ! t')) then ended_cause (t_status (rt x' ! t')) \<noteq> None
                      else t_status (rt x' ! t') = t_status (rt x ! t')"
    proof
      fix t' assume t': "t' \<in> set ts"
      with Cons.prems(1) have "t' \<noteq> t" by auto
      then have "rt ?x1 ! t' = rt x ! t'" by (rule same)
      with x'(4) t' show "if cancel_pending (t_status (rt x ! t')) then ended_cause (t_status (rt x' ! t')) \<noteq> None
                      else t_status (rt x' ! t') = t_status (rt x ! t')" by simp
    qed
    have run: "sup_run opn (map (\<lambda>t. EvTask t TCancelled) (filter (\<lambda>t. cancel_pending (t_status (rt x ! t))) (t # ts))) x = Some x'"
      using True step x'(1) f by simp
    have others: "\<forall>u < length (rt x). u \<notin> set (t # ts) \<longrightarrow> t_status (rt x' ! u) = t_status (rt x ! u)"
      using x'(3) same by auto
    show ?thesis using run x'(2) others head rest True by auto
  next
    case False
    obtain x' where x': "sup_run opn (map (\<lambda>t. EvTask t TCancelled) (filter (\<lambda>t. cancel_pending (t_status (rt x ! t))) ts)) x = Some x'"
      "length (rt x') = length (rt x)"
      "\<forall>u < length (rt x). u \<notin> set ts \<longrightarrow> t_status (rt x' ! u) = t_status (rt x ! u)"
      "\<forall>t' \<in> set ts. if cancel_pending (t_status (rt x ! t')) then ended_cause (t_status (rt x' ! t')) \<noteq> None
                      else t_status (rt x' ! t') = t_status (rt x ! t')"
      using Cons.IH [of x] Cons.prems by auto
    have "t_status (rt x' ! t) = t_status (rt x ! t)" using x'(3) Cons.prems by simp
    with x' False show ?thesis by auto
  qed
qed

lemma gathers_distinct:
  assumes "sup_core s" "\<forall>(p, v) \<in> set (tasks s). v \<noteq> None"
  shows "distinct (stop_gathers s)"
proof -
  have d: "distinct (tasks s)" using sup_core_distinct [OF assms(1)] by (simp add: distinct_map)
  have "inj_on (the \<circ> snd) (set (tasks s))"
  proof (rule inj_onI)
    fix x y assume xy: "x \<in> set (tasks s)" "y \<in> set (tasks s)" "(the \<circ> snd) x = (the \<circ> snd) y"
    obtain p v q w where x: "x = (p, v)" and y: "y = (q, w)" by (cases x, cases y)
    obtain t where v: "v = Some t" using assms(2) xy(1) x by auto
    obtain t' where w: "w = Some t'" using assms(2) xy(2) y by auto
    have "map_of (tasks s) p = Some v" "map_of (tasks s) q = Some w"
      using sup_core_distinct [OF assms(1)] xy(1,2) x y by (simp_all add: map_of_is_SomeI)
    then have "entry_ok s p v" "entry_ok s q w" using assms(1) by (simp_all add: sup_core_entry)
    then show "x = y" using xy(3) x y v w by (simp add: entry_ok_def)
  qed
  with d show ?thesis by (simp add: stop_gathers_def distinct_map)
qed

lemma live_cancelled:
  "live st \<Longrightarrow> cancel_pending (cancel_status st) \<or> ended_cause (cancel_status st) \<noteq> None"
  by (cases st) simp_all

lemma gathered_live:
  assumes "sup_core s" "t \<in> set (stop_gathers s)" "\<forall>(p, v) \<in> set (tasks s). v \<noteq> None"
  shows "t < length (rt s) \<and> live (t_status (rt s ! t)) \<and> Some t \<in> set (map snd (tasks s))"
proof -
  obtain p v where pv: "(p, v) \<in> set (tasks s)" "t = the v" using assms(2) by (auto simp: stop_gathers_def)
  with assms(3) have v: "v = Some t" by auto
  have "map_of (tasks s) p = Some v" using sup_core_distinct [OF assms(1)] pv(1) by (rule map_of_is_SomeI)
  with assms(1) have "entry_ok s p v" by (rule sup_core_entry)
  with v pv(1) show ?thesis by (force simp: entry_ok_def)
qed

text \<open>C8: \<open>stop()\<close> returns: after its cancelling part, once the event loop has run every
  monitor whose cancellation is pending, each task the \<open>asyncio.gather\<close> awaits has
  ended, so the gather completes (by returning or by raising).\<close>

theorem stop_gather_completes:
  assumes inv: "sup_inv s" and st: "started s" and stop: "stop_begin s = Ok s1"
  shows "\<exists>s2. sup_run opn (map (\<lambda>t. EvTask t TCancelled)
                   (filter (\<lambda>t. cancel_pending (t_status (rt s1 ! t))) (stop_gathers s))) s1 = Some s2
            \<and> gather (stop_gathers s) s2 \<noteq> None"
proof -
  have core: "sup_core s" using inv by (simp add: sup_inv_def)
  have some: "\<forall>(p, v) \<in> set (tasks s). v \<noteq> None" using inv st by (simp add: sup_inv_def)
  then have some': "\<forall>v \<in> set (map snd (tasks s)). v \<noteq> None" by auto
  obtain s' where s': "cancel_all (map snd (tasks s)) (s\<lparr>started := False\<rparr>) = Ok s'"
    "length (rt s') = length (rt s)"
    "\<forall>u < length (rt s). t_status (rt s' ! u) =
        (if Some u \<in> set (map snd (tasks s)) then cancel_status (t_status (rt s ! u)) else t_status (rt s ! u))"
    using cancel_all_Ok [OF some', of "s\<lparr>started := False\<rparr>"] by auto
  have s1: "s1 = s'" using stop s'(1) by (simp add: stop_begin_def)
  let ?ts = "stop_gathers s"
  have g: "t < length (rt s) \<and> live (t_status (rt s ! t)) \<and> Some t \<in> set (map snd (tasks s))"
    if "t \<in> set ?ts" for t
    using gathered_live [OF core that some] .
  have d: "distinct ?ts" using core some by (rule gathers_distinct)
  have b: "\<forall>t \<in> set ?ts. t < length (rt s1)" using g s'(2) s1 by auto
  obtain s2 where s2: "sup_run opn (map (\<lambda>t. EvTask t TCancelled)
                   (filter (\<lambda>t. cancel_pending (t_status (rt s1 ! t))) ?ts)) s1 = Some s2"
    "\<forall>t \<in> set ?ts. if cancel_pending (t_status (rt s1 ! t)) then ended_cause (t_status (rt s2 ! t)) \<noteq> None
                    else t_status (rt s2 ! t) = t_status (rt s1 ! t)"
    using drain_cancelled [OF d b, of opn] by auto
  have "ended_cause (t_status (rt s2 ! t)) \<noteq> None" if t: "t \<in> set ?ts" for t
  proof -
    have "t_status (rt s1 ! t) = cancel_status (t_status (rt s ! t))" using g [OF t] s'(3) s1 by simp
    then have "cancel_pending (t_status (rt s1 ! t)) \<or> ended_cause (t_status (rt s1 ! t)) \<noteq> None"
      using live_cancelled g [OF t] by simp
    then show ?thesis using s2(2) t by (auto split: if_splits)
  qed
  then have nn: "\<not> (\<exists>t \<in> set ?ts. ended_cause (t_status (rt s2 ! t)) = None)" by blast
  have "gather ?ts s2 = (if \<exists>t \<in> set ?ts. ended_cause (t_status (rt s2 ! t)) = Some UncaughtCancel
                          then Some (Raised CancelledError s2) else Some (Ok s2))"
    by (simp only: gather_def if_not_P [OF nn])
  then have "gather ?ts s2 \<noteq> None" by simp
  with s2(1) show ?thesis by blast
qed

theorem stop_gather_completes_witness:
  "sup_inv boot3 \<and> started boot3 \<and> stop_begin boot3 = Ok boot3_stopped
   \<and> (\<exists>s2. sup_run (\<lambda>_. None) [EvTask 0 TCancelled] boot3_stopped = Some s2
          \<and> gather [0] s2 \<noteq> None)"
proof -
  have st: "started boot3" by (simp add: boot3_def)
  have stop: "stop_begin boot3 = Ok boot3_stopped"
    by (simp add: boot3_def boot3_stopped_def stop_begin_def cancel_task_def set_status_def)
  have ev: "map (\<lambda>t. EvTask t TCancelled) (filter (\<lambda>t. cancel_pending (t_status (rt boot3_stopped ! t)))
              (stop_gathers boot3)) = [EvTask 0 TCancelled]" "stop_gathers boot3 = [0]"
    by (simp_all add: boot3_def boot3_stopped_def stop_gathers_def)
  show ?thesis
    using stop_gather_completes [OF boot3_inv st stop, of "\<lambda>_. None"] boot3_inv st stop ev by simp
qed

text \<open>C22: a monitor task cancelled before its first step never enters the \<open>try\<close> that
  catches \<open>CancelledError\<close>: whenever \<open>stop()\<close> is called on a started supervisor while
  one monitor is still created and not yet run, that monitor ends cancelled as soon as
  the loop delivers its cancellation, and the \<open>asyncio.gather\<close> of \<open>stop()\<close> then raises
  \<open>CancelledError\<close> at once, whatever the other monitors are doing, instead of returning
  (the spec says \<open>stop()\<close> waits for every task to finish).\<close>

theorem gather_raises_if_cancelled_before_start:
  assumes inv: "sup_inv s" and st: "started s" and m: "map_of (tasks s) p = Some (Some t)"
    and c: "t_status (rt s ! t) = Created"
  shows "\<exists>s1 s2. stop_begin s = Ok s1 \<and> sup_run opn [EvTask t TCancelled] s1 = Some s2
     \<and> gather (stop_gathers s) s2 = Some (Raised CancelledError s2)"
proof -
  have core: "sup_core s" using inv by (simp add: sup_inv_def)
  have lt: "t < length (rt s)" using sup_core_entry [OF core m] by (simp add: entry_ok_def)
  have "\<forall>(p, v) \<in> set (tasks s). v \<noteq> None" using inv st by (simp add: sup_inv_def)
  then have some: "\<forall>v \<in> set (map snd (tasks s)). v \<noteq> None" by auto
  obtain s1 where s1: "cancel_all (map snd (tasks s)) (s\<lparr>started := False\<rparr>) = Ok s1"
    "tasks s1 = tasks s" "length (rt s1) = length (rt s)"
    "\<forall>u < length (rt s). t_status (rt s1 ! u) =
        (if Some u \<in> set (map snd (tasks s)) then cancel_status (t_status (rt s ! u)) else t_status (rt s ! u))"
    using cancel_all_Ok [OF some, of "s\<lparr>started := False\<rparr>"] by auto
  have tin: "Some t \<in> set (map snd (tasks s))"
    using map_of_SomeD [OF m] by force
  have c1: "t_status (rt s1 ! t) = CancelReq False" using s1(4) lt tin c by simp
  let ?s2 = "set_status t (\<lambda>_. Exited UncaughtCancel) s1"
  have run: "sup_run opn [EvTask t TCancelled] s1 = Some ?s2"
    using c1 lt s1(3) by (simp add: task_status_of_def)
  have "t \<in> set (stop_gathers s)" using tin by (force simp: stop_gathers_def)
  moreover have "ended_cause (t_status (rt ?s2 ! t)) = Some UncaughtCancel"
    using lt s1(3) by (simp add: set_status_nth)
  ultimately have "gather (stop_gathers s) ?s2 = Some (Raised CancelledError ?s2)"
    by (auto simp: gather_def)
  moreover have "stop_begin s = Ok s1" using s1(1) by (simp add: stop_begin_def)
  ultimately show ?thesis using run by blast
qed

theorem gather_raises_if_cancelled_before_start_witness:
  "sup_inv boot3 \<and> started boot3 \<and> map_of (tasks boot3) ev3 = Some (Some 0)
   \<and> t_status (rt boot3 ! 0) = Created \<and> stop_begin boot3 = Ok boot3_stopped
   \<and> gather (stop_gathers boot3) (boot3_stopped\<lparr>rt := [\<lparr>t_dev = ev3, t_status = Exited UncaughtCancel\<rparr>]\<rparr>)
       = Some (Raised CancelledError (boot3_stopped\<lparr>rt := [\<lparr>t_dev = ev3, t_status = Exited UncaughtCancel\<rparr>]\<rparr>))"
proof -
  have h: "started boot3" "map_of (tasks boot3) ev3 = Some (Some 0)" "t_status (rt boot3 ! 0) = Created"
    by (simp_all add: boot3_def)
  have sb: "stop_begin boot3 = Ok boot3_stopped"
    by (simp add: boot3_def boot3_stopped_def stop_begin_def cancel_task_def set_status_def)
  have r: "sup_run (\<lambda>_. None) [EvTask 0 TCancelled] boot3_stopped
             = Some (boot3_stopped\<lparr>rt := [\<lparr>t_dev = ev3, t_status = Exited UncaughtCancel\<rparr>]\<rparr>)"
    by (simp add: boot3_stopped_def boot3_def task_status_of_def set_status_def)
  obtain s1 s2 where "stop_begin boot3 = Ok s1" "sup_run (\<lambda>_. None) [EvTask 0 TCancelled] s1 = Some s2"
    "gather (stop_gathers boot3) s2 = Some (Raised CancelledError s2)"
    using gather_raises_if_cancelled_before_start [OF boot3_inv h, of "\<lambda>_. None"] by blast
  then show ?thesis using sb r boot3_inv h by simp
qed

end
