(* ===== verification/Watcher_Lifecycle.thy ===== *)
theory Watcher_Lifecycle
  imports Watcher_Props
begin

text \<open>
  Whole-life properties of the supervisor of \<open>Watcher\<close>: a device plugged and unplugged
  leaves the dicts as they were (round trip), the pending cancellations and done
  callbacks can always be run to the end (liveness), the number of monitors is bounded
  by the number of tracked paths (bounds), and the value type of \<open>self.tasks\<close>
  (type).
\<close>

lemma delete_append_new:
  "k \<notin> fst ` set d \<Longrightarrow> AList.delete k (d @ [(k, v)]) = d"
  by (induction d) auto

lemma map_of_None_key: "map_of d k = None \<Longrightarrow> k \<notin> fst ` set d"
  by (simp add: map_of_eq_None_iff)

subsection \<open>Plugging and unplugging a device\<close>

text \<open>The loop steps of a gamepad plugged into a running supervisor, read from once,
  and unplugged: the add callback, the monitor's first step, the remove callback, the
  cancelled monitor ending, and its done callback.\<close>

definition plug_unplug :: "path \<Rightarrow> tid \<Rightarrow> sup_event list" where
  "plug_unplug p t = [EvAdd p, EvTask t TBegin, EvRemove p, EvTask t TCancelled, EvTask t TDoneCallback]"

lemma plug_unplug_run:
  assumes core: "sup_core s" and st: "started s" and p: "map_of (tasks s) p = None"
    and d: "map_of (devices s) p = None" and o: "opn p = None"
  shows "sup_run opn (plug_unplug p (length (rt s))) s =
           Some (s\<lparr>rt := rt s @ [\<lparr>t_dev = p, t_status = Collected CaughtCancel\<rparr>]\<rparr>)"
proof -
  let ?t = "length (rt s)"
  have pk: "p \<notin> fst ` set (tasks s)" and dk: "p \<notin> fst ` set (devices s)"
    using p d by (simp_all add: map_of_None_key)
  have nt: "?t \<notin> opened s" using sup_core_opened [OF core] by blast
  have add: "add_device opn p s = Ok (created p s)"
    using p st o by (simp add: add_device_def dict_get_def create_monitor_task_eq)
  let ?s1 = "created p s"
  let ?s2 = "set_status ?t (\<lambda>_. Reading) ?s1"
  have s2: "sup_step opn (EvTask ?t TBegin) ?s1 = Some (Ok ?s2)"
    by (simp add: task_status_of_def nth_append)
  have tk: "tasks ?s2 = tasks s @ [(p, Some ?t)]" and dv: "devices ?s2 = devices s @ [(p, ?t)]"
    using pk dk by (simp_all add: update_new_key)
  let ?s3 = "(cancel_task ?t ?s2)\<lparr>opened := opened s, devices := devices s\<rparr>"
  have g: "dict_get (tasks ?s2) p = Some ?t" by (simp add: dict_get_def update_conv')
  have h: "map_of (devices (cancel_task ?t ?s2)) p = Some ?t" by (simp add: update_conv')
  have "AList.delete p (devices ?s2) = devices s" using dv by (simp add: delete_append_new [OF dk])
  then have s3: "remove_device p ?s2 = Ok ?s3"
    using g h nt by (simp add: remove_device_def)
  have rt3: "rt ?s3 = rt s @ [\<lparr>t_dev = p, t_status = CancelReq True\<rparr>]"
    by (simp add: cancel_task_def set_status_def)
  let ?s4 = "set_status ?t (\<lambda>_. Exited CaughtCancel) ?s3"
  have s4: "sup_step opn (EvTask ?t TCancelled) ?s3 = Some (Ok ?s4)"
    using rt3 by (simp add: task_status_of_def)
  have rt4: "rt ?s4 = rt s @ [\<lparr>t_dev = p, t_status = Exited CaughtCancel\<rparr>]"
    using rt3 by (simp add: set_status_def)
  let ?s5 = "(set_status ?t (\<lambda>_. Collected CaughtCancel) ?s4)\<lparr>tasks := tasks s\<rparr>"
  have s5: "sup_step opn (EvTask ?t TDoneCallback) ?s4 = Some (Ok ?s5)"
    using rt4 tk pk
    by (simp add: task_status_of_def finish_removing_device_def dict_has_def delete_append_new [OF pk])
  have "?s5 = s\<lparr>rt := rt s @ [\<lparr>t_dev = p, t_status = Collected CaughtCancel\<rparr>]\<rparr>"
    using rt4 by (simp add: set_status_def cancel_task_def)
  then show ?thesis using add s2 s3 s4 s5 by (simp add: plug_unplug_def)
qed

subsection \<open>Draining the pending work\<close>

text \<open>A task status with no pending work: not waiting for its cancellation to be
  delivered, and not waiting for its done callback.\<close>

fun settled :: "task_status \<Rightarrow> bool" where
  "settled (CancelReq b) = False"
| "settled (Exited c) = False"
| "settled _ = True"

text \<open>The steps the event loop runs for a task with pending work, in order.\<close>

fun cleanup_steps :: "task_status \<Rightarrow> task_event list" where
  "cleanup_steps (CancelReq b) = [TCancelled, TDoneCallback]"
| "cleanup_steps (Exited c) = [TDoneCallback]"
| "cleanup_steps _ = []"

fun cleanup_event :: "sup_event \<Rightarrow> bool" where
  "cleanup_event (EvTask t TCancelled) = True"
| "cleanup_event (EvTask t TDoneCallback) = True"
| "cleanup_event _ = False"

definition cleanup_run :: "watcher \<Rightarrow> tid list \<Rightarrow> sup_event list" where
  "cleanup_run s ts = concat (map (\<lambda>t. map (EvTask t) (cleanup_steps (t_status (rt s ! t)))) ts)"

lemma sup_run_append:
  "sup_run opn (xs @ ys) s = (case sup_run opn xs s of None \<Rightarrow> None | Some s' \<Rightarrow> sup_run opn ys s')"
  by (induction xs arbitrary: s) (simp_all split: option.split)

lemma finish_removing_rt [simp]: "rt (state_of (finish_removing_device p s)) = rt s"
  by (simp add: finish_removing_device_def)

lemma cleanup_one:
  assumes t: "t < length (rt s)"
  shows "\<exists>s'. sup_run opn (map (EvTask t) (cleanup_steps (t_status (rt s ! t)))) s = Some s'
     \<and> length (rt s') = length (rt s) \<and> settled (t_status (rt s' ! t)) \<and> (\<forall>u. u \<noteq> t \<longrightarrow> rt s' ! u = rt s ! u)"
proof (cases "t_status (rt s ! t)")
  case (CancelReq b)
  let ?c = "if b then CaughtCancel else UncaughtCancel"
  let ?s1 = "set_status t (\<lambda>_. Exited ?c) s"
  let ?s2 = "set_status t (\<lambda>_. Collected ?c) ?s1"
  have "sup_run opn [EvTask t TCancelled, EvTask t TDoneCallback] s
          = Some (state_of (finish_removing_device (t_dev (rt ?s2 ! t)) ?s2))"
    using t CancelReq by (simp add: task_status_of_def set_status_nth)
  then show ?thesis using t CancelReq by (simp add: set_status_def nth_list_update)
next
  case (Exited c)
  let ?s2 = "set_status t (\<lambda>_. Collected c) s"
  have "sup_run opn [EvTask t TDoneCallback] s = Some (state_of (finish_removing_device (t_dev (rt ?s2 ! t)) ?s2))"
    using t Exited by (simp add: task_status_of_def)
  then show ?thesis using t Exited by (simp add: set_status_def nth_list_update)
qed (use t in auto)

lemma cleanup_all:
  assumes "distinct ts" and "\<forall>t \<in> set ts. t < length (rt s)"
  shows "\<exists>s'. sup_run opn (cleanup_run s ts) s = Some s' \<and> length (rt s') = length (rt s)
     \<and> (\<forall>t \<in> set ts. settled (t_status (rt s' ! t))) \<and> (\<forall>u. u \<notin> set ts \<longrightarrow> rt s' ! u = rt s ! u)"
  using assms
proof (induction ts arbitrary: s)
  case Nil
  then show ?case by (simp add: cleanup_run_def)
next
  case (Cons t ts)
  obtain s1 where s1: "sup_run opn (map (EvTask t) (cleanup_steps (t_status (rt s ! t)))) s = Some s1"
    "length (rt s1) = length (rt s)" "settled (t_status (rt s1 ! t))" "\<forall>u. u \<noteq> t \<longrightarrow> rt s1 ! u = rt s ! u"
    using cleanup_one [of t s opn] Cons.prems(2) by auto
  have "rt s1 ! x = rt s ! x" if "x \<in> set ts" for x using that Cons.prems(1) s1(4) by auto
  then have same: "cleanup_run s1 ts = cleanup_run s ts"
    by (simp add: cleanup_run_def cong: map_cong)
  obtain s2 where s2: "sup_run opn (cleanup_run s1 ts) s1 = Some s2" "length (rt s2) = length (rt s1)"
    "\<forall>u \<in> set ts. settled (t_status (rt s2 ! u))" "\<forall>u. u \<notin> set ts \<longrightarrow> rt s2 ! u = rt s1 ! u"
    using Cons.IH [of s1] Cons.prems s1(2) by auto
  have "sup_run opn (cleanup_run s (t # ts)) s = Some s2"
    using s1(1) s2(1) same by (simp add: cleanup_run_def sup_run_append)
  moreover have "settled (t_status (rt s2 ! t))" using s2(4) s1(3) Cons.prems(1) by simp
  ultimately show ?case using s1 s2 by auto
qed

lemma cleanup_run_events: "list_all cleanup_event (cleanup_run s ts)"
proof -
  have "list_all cleanup_event (map (EvTask t) (cleanup_steps st))" for t st
    by (cases st) simp_all
  then show ?thesis by (simp add: cleanup_run_def list_all_iff)
qed

lemma settled_live: "settled st \<Longrightarrow> live st \<Longrightarrow> st = Created \<or> st = Reading"
  by (cases st) simp_all

lemma boot3_removed_reach: "sup_reach boot3_removed"
proof -
  have "sup_step (\<lambda>_. None) (EvRemove ev3) boot3 = Some (Ok boot3_removed)"
    using boot3_remove by simp
  from sup_reach.step [OF boot3_reach this] show ?thesis by simp
qed

definition ev7 :: path where
  "ev7 = ''/dev/input/event7''"

subsection \<open>Properties\<close>

text \<open>C28: plugging a gamepad into a running supervisor and unplugging it again is a
  round trip: once its monitor has been cancelled and its done callback has run, the
  dicts \<open>tasks\<close> and \<open>devices\<close> and the set of open device objects are exactly as before,
  and the only trace left is the finished task.\<close>

theorem plug_unplug_roundtrip:
  assumes "sup_inv s" and "started s" and "map_of (tasks s) p = None"
    and "map_of (devices s) p = None" and "opn p = None"
  shows "\<exists>s'. sup_run opn (plug_unplug p (length (rt s))) s = Some s'
     \<and> tasks s' = tasks s \<and> devices s' = devices s \<and> opened s' = opened s
     \<and> started s' = started s \<and> gamepad_active s' = gamepad_active s
     \<and> take (length (rt s)) (rt s') = rt s \<and> \<not> alive (t_status (rt s' ! length (rt s)))"
proof -
  have "sup_core s" using assms(1) by (simp add: sup_inv_def)
  from plug_unplug_run [where opn = opn and p = p, OF this assms(2-5)] show ?thesis by simp
qed

theorem plug_unplug_roundtrip_witness:
  "sup_inv boot3 \<and> started boot3 \<and> map_of (tasks boot3) ev7 = None \<and> map_of (devices boot3) ev7 = None
   \<and> (\<exists>s'. sup_run (\<lambda>_. None) (plug_unplug ev7 1) boot3 = Some s' \<and> tasks s' = tasks boot3)"
proof -
  have h: "started boot3" "map_of (tasks boot3) ev7 = None" "map_of (devices boot3) ev7 = None"
    by (simp_all add: boot3_def ev3_def ev7_def)
  have "length (rt boot3) = 1" by (simp add: boot3_def)
  with plug_unplug_roundtrip [OF boot3_inv h, of "\<lambda>_. None"] boot3_inv h show ?thesis by auto
qed

text \<open>C29: pending work always drains: from any state the running program reaches, the
  event loop can deliver every requested cancellation and run every pending done
  callback, using only those steps; afterwards no task is waiting for either, and every
  path still tracked with a task is monitored by a task that is created or reading, so
  no removal is left half done.\<close>

theorem pending_work_drains:
  assumes "sup_reach s"
  shows "\<exists>es s'. list_all cleanup_event es \<and> sup_run opn es s = Some s'
     \<and> length (rt s') = length (rt s) \<and> (\<forall>t < length (rt s'). settled (t_status (rt s' ! t)))
     \<and> (\<forall>p t. map_of (tasks s') p = Some (Some t) \<longrightarrow> t_status (rt s' ! t) = Created \<or> t_status (rt s' ! t) = Reading)"
proof -
  obtain s' where s': "sup_run opn (cleanup_run s [0..<length (rt s)]) s = Some s'"
    "length (rt s') = length (rt s)" "\<forall>t \<in> set [0..<length (rt s)]. settled (t_status (rt s' ! t))"
    using cleanup_all [of "[0..<length (rt s)]" s opn] by auto
  have core: "sup_core s'"
    using sup_reach_inv [OF sup_run_reach [OF assms s'(1)]] by (simp add: sup_inv_def)
  have st: "\<forall>t < length (rt s'). settled (t_status (rt s' ! t))" using s'(2,3) by simp
  have tr: "t_status (rt s' ! t) = Created \<or> t_status (rt s' ! t) = Reading"
    if m: "map_of (tasks s') p = Some (Some t)" for p t
  proof -
    have lv: "t < length (rt s') \<and> live (t_status (rt s' ! t))"
      using sup_core_entry [OF core m] by (simp add: entry_ok_def)
    with st have "settled (t_status (rt s' ! t))" by blast
    with lv show ?thesis using settled_live by blast
  qed
  show ?thesis
  proof (intro exI conjI allI impI)
    show "list_all cleanup_event (cleanup_run s [0..<length (rt s)])" by (rule cleanup_run_events)
    show "sup_run opn (cleanup_run s [0..<length (rt s)]) s = Some s'" by (rule s'(1))
    show "length (rt s') = length (rt s)" by (rule s'(2))
    show "settled (t_status (rt s' ! t))" if "t < length (rt s')" for t using st that by blast
    show "t_status (rt s' ! t) = Created \<or> t_status (rt s' ! t) = Reading"
      if "map_of (tasks s') p = Some (Some t)" for p t using tr that by blast
  qed
qed

theorem pending_work_drains_witness:
  "sup_reach boot3_removed \<and> t_status (rt boot3_removed ! 0) = CancelReq False
   \<and> (\<exists>es s'. sup_run (\<lambda>_. None) es boot3_removed = Some s' \<and> settled (t_status (rt s' ! 0)))"
proof -
  have "length (rt boot3_removed) = 1" "t_status (rt boot3_removed ! 0) = CancelReq False"
    by (simp_all add: boot3_removed_def boot3_def)
  then show ?thesis using pending_work_drains [OF boot3_removed_reach, of "\<lambda>_. None"] boot3_removed_reach
    by fastforce
qed

text \<open>C30: the number of live monitor tasks never exceeds the number of entries of
  \<open>self.tasks\<close>: each live task is the value of its own path.\<close>

theorem live_monitors_bounded:
  assumes "sup_reach s"
  shows "card {t. t < length (rt s) \<and> live (t_status (rt s ! t))} \<le> length (tasks s)"
proof -
  let ?A = "{t. t < length (rt s) \<and> live (t_status (rt s ! t))}"
  have core: "sup_core s" using sup_reach_inv [OF assms] by (simp add: sup_inv_def)
  have m: "map_of (tasks s) (t_dev (rt s ! t)) = Some (Some t)" if "t \<in> ?A" for t
    using that sup_core_live [OF core] by blast
  have "inj_on (\<lambda>t. t_dev (rt s ! t)) ?A"
  proof (rule inj_onI)
    fix x y assume x: "x \<in> ?A" and y: "y \<in> ?A" and e: "t_dev (rt s ! x) = t_dev (rt s ! y)"
    from m [OF x] m [OF y] e show "x = y" by (metis option.inject)
  qed
  moreover have "(\<lambda>t. t_dev (rt s ! t)) ` ?A \<subseteq> fst ` set (tasks s)"
  proof
    fix k assume "k \<in> (\<lambda>t. t_dev (rt s ! t)) ` ?A"
    then obtain t where t: "t \<in> ?A" and k: "k = t_dev (rt s ! t)" by blast
    have "(t_dev (rt s ! t), Some t) \<in> set (tasks s)" by (rule map_of_SomeD [OF m [OF t]])
    then show "k \<in> fst ` set (tasks s)" using k by force
  qed
  ultimately have "card ?A \<le> card (fst ` set (tasks s))"
    by (intro card_inj_on_le) auto
  also have "\<dots> \<le> length (tasks s)"
    using card_image_le [of "set (tasks s)" fst] card_length [of "tasks s"] by simp
  finally show ?thesis .
qed

theorem live_monitors_bounded_witness:
  "sup_reach boot3 \<and> card {t. t < length (rt boot3) \<and> live (t_status (rt boot3 ! t))} = 1
   \<and> length (tasks boot3) = 1"
proof -
  have "{t. t < length (rt boot3) \<and> live (t_status (rt boot3 ! t))} = {0}"
    by (auto simp: boot3_def)
  then show ?thesis using live_monitors_bounded [OF boot3_reach] boot3_reach by (simp add: boot3_def)
qed

text \<open>C31: \<open>self.tasks\<close> is annotated \<open>Dict[str, asyncio.Task]\<close>; once the supervisor is
  started the annotation holds in every reachable state: every value is a live task
  created for its key. Before \<open>start()\<close> the values stored by \<open>set_init_devices\<close> and
  \<open>add_device\<close> are \<open>None\<close>, outside the annotated type.\<close>

theorem started_tasks_values_typed:
  assumes "sup_reach s" and "started s" and "map_of (tasks s) p = Some v"
  shows "\<exists>t. v = Some t \<and> t < length (rt s) \<and> t_dev (rt s ! t) = p \<and> live (t_status (rt s ! t))"
proof -
  have inv: "sup_inv s" by (rule sup_reach_inv [OF assms(1)])
  have "v \<noteq> None"
  proof
    assume "v = None"
    with assms(3) have "map_of (tasks s) p = Some None" by simp
    with inv assms(2) show False by (simp add: sup_inv_iff)
  qed
  then obtain t where v: "v = Some t" by auto
  have "entry_ok s p v" using inv assms(3) by (simp add: sup_inv_def sup_core_entry)
  with v show ?thesis by (simp add: entry_ok_def)
qed

theorem started_tasks_values_typed_witness:
  "sup_reach boot3 \<and> started boot3 \<and> map_of (tasks boot3) ev3 = Some (Some 0)
   \<and> t_dev (rt boot3 ! 0) = ev3
   \<and> map_of (tasks (set_init_devices [ev3] watcher_init)) ev3 = Some None"
proof -
  have h: "started boot3" "map_of (tasks boot3) ev3 = Some (Some 0)" by (simp_all add: boot3_def)
  obtain t where "Some 0 = Some t" "t_dev (rt boot3 ! t) = ev3"
    using started_tasks_values_typed [OF boot3_reach h] by blast
  then show ?thesis using h boot3_reach by (simp add: watcher_init_def)
qed

end
