(* ===== verification/IdleLock.thy ===== *)
theory IdleLock
  imports Prelude
begin

text \<open>
  The idle lock controller, class \<open>IdleLock\<close> of src/gamepad-lock-inhibit.py, together
  with the part of logind it acts on. \<open>fd\<close> is the object's field \<open>self.fd\<close> (the file
  descriptor of the held inhibitor lock, \<open>None\<close> when none is held); \<open>held\<close> is the set
  of inhibitor descriptors logind holds for this process, \<open>next_fd\<close> the descriptor the
  next \<open>Inhibit\<close> call returns, and \<open>inhibit_calls\<close> counts the \<open>Inhibit\<close> requests
  made. \<open>Inhibit\<close> can fail with a D-Bus error; its outcome is an argument.
\<close>

record lock_state =
  fd :: "nat option"
  held :: "nat set"
  next_fd :: nat
  inhibit_calls :: nat

text \<open>\<open>IdleLock.__init__\<close>: no lock; connecting to the system bus may fail.\<close>

definition idle_lock_init :: "bool \<Rightarrow> lock_state \<Rightarrow> lock_state outcome" where
  "idle_lock_init bus_ok l =
     (if bus_ok then Ok (l\<lparr>fd := None\<rparr>) else Raised DBusException (l\<lparr>fd := None\<rparr>))"

definition lock_idle :: "bool \<Rightarrow> lock_state \<Rightarrow> lock_state outcome" where
  "lock_idle inhibit_ok l =
     (if fd l \<noteq> None then Ok l
      else if inhibit_ok
      then Ok (l\<lparr>fd := Some (next_fd l), held := insert (next_fd l) (held l),
                 next_fd := Suc (next_fd l), inhibit_calls := Suc (inhibit_calls l)\<rparr>)
      else Raised DBusException (l\<lparr>inhibit_calls := Suc (inhibit_calls l)\<rparr>))"

definition unlock_idle :: "lock_state \<Rightarrow> lock_state" where
  "unlock_idle l =
     (case fd l of
        None \<Rightarrow> l
      | Some f \<Rightarrow> l\<lparr>held := held l - {f}, fd := None\<rparr>)"

text \<open>
  The controller's invariant: logind holds exactly the lock the object records, and
  every descriptor it holds was handed out before.
\<close>

definition lock_inv :: "lock_state \<Rightarrow> bool" where
  "lock_inv l \<longleftrightarrow> held l = set_option (fd l) \<and> (\<forall>f \<in> held l. f < next_fd l)"

lemma lock_idle_inv: "lock_inv l \<Longrightarrow> lock_inv (state_of (lock_idle ok l))"
  by (auto simp: lock_inv_def lock_idle_def)

lemma lock_idle_Ok_inv: "lock_inv l \<Longrightarrow> lock_idle ok l = Ok l' \<Longrightarrow> lock_inv l'"
  using lock_idle_inv [of l ok] by simp

lemma lock_idle_Raised_inv: "lock_inv l \<Longrightarrow> lock_idle ok l = Raised e l' \<Longrightarrow> lock_inv l'"
  using lock_idle_inv [of l ok] by simp

lemma unlock_idle_inv: "lock_inv l \<Longrightarrow> lock_inv (unlock_idle l)"
  by (auto simp: lock_inv_def unlock_idle_def split: option.splits)

lemma unlock_idle_released: "lock_inv l \<Longrightarrow> fd (unlock_idle l) = None \<and> held (unlock_idle l) = {}"
  by (auto simp: lock_inv_def unlock_idle_def split: option.splits)

lemma lock_idle_held:
  "lock_idle ok l = Ok l' \<Longrightarrow> fd l' \<noteq> None"
  by (auto simp: lock_idle_def split: if_splits)

lemma lock_idle_Raised:
  "lock_idle ok l = Raised e l' \<Longrightarrow> e = DBusException \<and> fd l = None \<and> \<not> ok \<and> fd l' = None \<and> held l' = held l"
  by (auto simp: lock_idle_def split: if_splits)

subsection \<open>Properties\<close>

definition fresh_lock :: lock_state where
  "fresh_lock = \<lparr>fd = None, held = {}, next_fd = 7, inhibit_calls = 0\<rparr>"

lemma fresh_lock_inv: "lock_inv fresh_lock"
  by (simp add: lock_inv_def fresh_lock_def)

text \<open>C13: \<open>lock_idle()\<close> twice in a row leaves exactly one lock held, and logind is
  asked for it at most once: once when the first call started unlocked, never when a
  lock was already held; the second call changes nothing whatever \<open>Inhibit\<close> would do.\<close>

theorem lock_idle_twice_single_lock:
  assumes "lock_inv l" and "lock_idle ok1 l = Ok l1"
  shows "lock_idle ok2 l1 = Ok l1 \<and> (\<exists>f. fd l1 = Some f \<and> held l1 = {f})
     \<and> inhibit_calls l1 = inhibit_calls l + (if fd l = None then 1 else 0)"
  using assms by (auto simp: lock_idle_def lock_inv_def split: if_splits)

definition lock1 :: lock_state where
  "lock1 = \<lparr>fd = Some 7, held = {7}, next_fd = 8, inhibit_calls = 1\<rparr>"

theorem lock_idle_twice_single_lock_witness:
  "lock_inv fresh_lock \<and> lock_idle True fresh_lock = Ok lock1 \<and> lock_idle False lock1 = Ok lock1"
proof -
  have l1: "lock_idle True fresh_lock = Ok lock1"
    by (simp add: lock_idle_def fresh_lock_def lock1_def)
  have "lock_idle False lock1 = Ok lock1"
    using lock_idle_twice_single_lock [OF fresh_lock_inv l1, of False] by (rule conjunct1)
  with fresh_lock_inv l1 show ?thesis by blast
qed

text \<open>C14: \<open>unlock_idle()\<close> releases the held lock, closing its descriptor, and a second
  call is a no-op: afterwards no lock is held and logind holds none for the process.\<close>

theorem unlock_idle_twice_released:
  assumes "lock_inv l"
  shows "unlock_idle (unlock_idle l) = unlock_idle l \<and> fd (unlock_idle l) = None \<and> held (unlock_idle l) = {}
     \<and> inhibit_calls (unlock_idle l) = inhibit_calls l"
  using assms by (auto simp: unlock_idle_def lock_inv_def split: option.splits)

theorem unlock_idle_twice_released_witness:
  "lock_inv (fresh_lock\<lparr>fd := Some 7, held := {7}, next_fd := 8\<rparr>)
   \<and> unlock_idle (unlock_idle (fresh_lock\<lparr>fd := Some 7, held := {7}, next_fd := 8\<rparr>))
       = fresh_lock\<lparr>next_fd := 8\<rparr>"
proof -
  have i: "lock_inv (fresh_lock\<lparr>fd := Some 7, held := {7}, next_fd := 8\<rparr>)"
    by (simp add: lock_inv_def fresh_lock_def)
  show ?thesis using unlock_idle_twice_released [OF i] i by (simp add: unlock_idle_def fresh_lock_def)
qed

text \<open>Any interleaving of the two calls, with any \<open>Inhibit\<close> outcomes; a failed call
  leaves the object as the exception found it.\<close>

datatype lock_call = LockCall bool | UnlockCall

fun lock_calls :: "lock_call list \<Rightarrow> lock_state \<Rightarrow> lock_state" where
  "lock_calls [] l = l"
| "lock_calls (LockCall ok # cs) l = lock_calls cs (state_of (lock_idle ok l))"
| "lock_calls (UnlockCall # cs) l = lock_calls cs (unlock_idle l)"

text \<open>C15: whatever sequence of \<open>lock_idle\<close> and \<open>unlock_idle\<close> calls is made, in any
  order and with any \<open>Inhibit\<close> failures, the controller and logind agree on the held
  lock and at most one lock is held.\<close>

theorem lock_calls_at_most_one:
  assumes "lock_inv l"
  shows "lock_inv (lock_calls cs l) \<and> held (lock_calls cs l) = set_option (fd (lock_calls cs l))
     \<and> card (held (lock_calls cs l)) \<le> 1"
proof -
  have "lock_inv (lock_calls cs l)"
    using assms
  proof (induction cs arbitrary: l)
    case Nil
    then show ?case by simp
  next
    case (Cons c cs)
    then show ?case by (cases c) (simp_all add: lock_idle_inv unlock_idle_inv)
  qed
  then show ?thesis by (cases "fd (lock_calls cs l)") (auto simp: lock_inv_def)
qed

theorem lock_calls_at_most_one_witness:
  "lock_inv fresh_lock \<and> card (held (lock_calls [LockCall True, LockCall True, UnlockCall, LockCall False, LockCall True] fresh_lock)) \<le> 1"
  using lock_calls_at_most_one [OF fresh_lock_inv] fresh_lock_inv by blast

end
