(* ===== verification/Bridge.thy ===== *)
theory Bridge
  imports IdleLock
begin

text \<open>
  The activity-to-lock bridge, coroutine \<open>inhibit_idle_when_gamepads_active\<close> of
  src/gamepad-lock-inhibit.py. It is stated over any sampler \<open>smp\<close> of type
  \<open>'w \<Rightarrow> bool \<times> 'w\<close>, the interface \<open>watcher.get_and_reset_active()\<close> offers
  (Spec2Isabelle instantiates it with the supervisor). The \<open>while True\<close> loop is run over
  the list of sampling windows that complete before the task is cancelled: a window is
  what happens to the world during \<open>await asyncio.sleep(interval)\<close> (a function on
  \<open>'w\<close>) and whether the \<open>Inhibit\<close> call of that tick, if one is made, succeeds.
  Cancellation is delivered at the sleep, the only suspension point of the loop.
\<close>

type_synonym 'w window = "('w \<Rightarrow> 'w) \<times> bool"

definition bridge_tick :: "('w \<Rightarrow> bool \<times> 'w) \<Rightarrow> bool \<Rightarrow> 'w \<times> lock_state \<Rightarrow> ('w \<times> lock_state) outcome" where
  "bridge_tick smp inhibit_ok st =
     (case st of (w, l) \<Rightarrow>
        (case smp w of (active, w') \<Rightarrow>
           if active then map_outcome (\<lambda>l'. (w', l')) (lock_idle inhibit_ok l)
           else Ok (w', unlock_idle l)))"

fun bridge_loop :: "('w \<Rightarrow> bool \<times> 'w) \<Rightarrow> 'w window list \<Rightarrow> 'w \<times> lock_state \<Rightarrow> ('w \<times> lock_state) outcome" where
  "bridge_loop smp [] st = Ok st"
| "bridge_loop smp ((env, ok) # ws) (w, l) =
     (case bridge_tick smp ok (env w, l) of
        Ok st' \<Rightarrow> bridge_loop smp ws st'
      | Raised e st' \<Rightarrow> Raised e st')"

text \<open>
  The whole task: \<open>lock = IdleLock()\<close> (outside the \<open>try\<close>), the loop, and on
  cancellation the final \<open>lock.unlock_idle()\<close> before \<open>CancelledError\<close> is re-raised.
  Any other exception leaves the task unhandled.
\<close>

definition inhibit_idle_when_gamepads_active ::
  "('w \<Rightarrow> bool \<times> 'w) \<Rightarrow> bool \<Rightarrow> 'w window list \<Rightarrow> 'w \<Rightarrow> lock_state \<Rightarrow> ('w \<times> lock_state) outcome" where
  "inhibit_idle_when_gamepads_active smp bus_ok ws w ld =
     (case idle_lock_init bus_ok ld of
        Raised e l \<Rightarrow> Raised e (w, l)
      | Ok l \<Rightarrow>
          (case bridge_loop smp ws (w, l) of
             Ok (w', l') \<Rightarrow> Raised CancelledError (w', unlock_idle l')
           | Raised e st \<Rightarrow> Raised e st))"

subsection \<open>The abstract two-state machine\<close>

text \<open>
  What the bridge promises: after each tick it is locked exactly when that window saw
  activity, and it asks logind for a new lock exactly at the ticks where it goes from
  unlocked to locked. \<open>samples\<close> is the activity the bridge reads at each tick.
\<close>

fun samples :: "('w \<Rightarrow> bool \<times> 'w) \<Rightarrow> 'w window list \<Rightarrow> 'w \<Rightarrow> bool list" where
  "samples smp [] w = []"
| "samples smp ((env, ok) # ws) w = (case smp (env w) of (a, w') \<Rightarrow> a # samples smp ws w')"

fun abs_locked :: "bool \<Rightarrow> bool list \<Rightarrow> bool" where
  "abs_locked locked [] = locked"
| "abs_locked locked (a # as) = abs_locked a as"

fun rises :: "bool \<Rightarrow> bool list \<Rightarrow> nat" where
  "rises locked [] = 0"
| "rises locked (a # as) = (if a \<and> \<not> locked then 1 else 0) + rises a as"

lemma bridge_tick_Ok:
  assumes "lock_inv l" "smp w = (a, w')" "a \<longrightarrow> ok \<or> fd l \<noteq> None"
  shows "bridge_tick smp ok (w, l) =
           Ok (w', if a then state_of (lock_idle ok l) else unlock_idle l)"
  using assms by (auto simp: bridge_tick_def lock_idle_def)

lemma lock_idle_ok_state:
  "lock_inv l \<Longrightarrow> ok \<or> fd l \<noteq> None \<Longrightarrow>
     fd (state_of (lock_idle ok l)) \<noteq> None
     \<and> inhibit_calls (state_of (lock_idle ok l)) = inhibit_calls l + (if fd l = None then 1 else 0)"
  by (auto simp: lock_idle_def)

lemma unlock_idle_calls: "inhibit_calls (unlock_idle l) = inhibit_calls l"
  by (simp add: unlock_idle_def split: option.splits)

lemma bridge_loop_unlocked_on_error:
  "lock_inv l \<Longrightarrow> bridge_loop smp ws (w, l) = Raised e (w', l') \<Longrightarrow> fd l' = None \<and> lock_inv l' \<and> e = DBusException"
proof (induction ws arbitrary: w l)
  case Nil
  then show ?case by simp
next
  case (Cons win ws)
  obtain env ok where win: "win = (env, ok)" by (cases win)
  obtain a w1 where smp: "smp (env w) = (a, w1)" by (cases "smp (env w)")
  show ?case
  proof (cases "bridge_tick smp ok (env w, l)")
    case (Ok st')
    obtain w2 l2 where st': "st' = (w2, l2)" by (cases st')
    have "lock_inv l2"
      using Ok st' smp Cons.prems(1)
      by (auto simp: bridge_tick_def lock_idle_Ok_inv unlock_idle_inv split: if_splits)
    then show ?thesis using Cons.IH [of l2 w2] Cons.prems(2) Ok st' win by simp
  next
    case (Raised e' st')
    then show ?thesis using Cons.prems smp win
      by (auto simp: bridge_tick_def lock_idle_Raised_inv split: if_splits
               dest: lock_idle_Raised [where l = l and ok = ok])
  qed
qed

lemma bridge_loop_inv:
  "lock_inv l \<Longrightarrow> bridge_loop smp ws (w, l) = Ok (w', l') \<Longrightarrow> lock_inv l'"
proof (induction ws arbitrary: w l)
  case Nil
  then show ?case by simp
next
  case (Cons win ws)
  obtain env ok where win: "win = (env, ok)" by (cases win)
  show ?case
  proof (cases "bridge_tick smp ok (env w, l)")
    case (Ok st')
    obtain w2 l2 where st': "st' = (w2, l2)" by (cases st')
    have "lock_inv l2"
      using Ok st' Cons.prems(1)
      by (auto simp: bridge_tick_def lock_idle_Ok_inv unlock_idle_inv split: if_splits prod.splits)
    then show ?thesis using Cons.IH [of l2 w2] Cons.prems(2) Ok st' win by simp
  next
    case (Raised e' st')
    then show ?thesis using Cons.prems win by simp
  qed
qed

lemma bridge_tick_state:
  assumes "lock_inv l" "smp w = (a, w')" "a \<longrightarrow> ok \<or> fd l \<noteq> None"
  shows "\<exists>l'. bridge_tick smp ok (w, l) = Ok (w', l') \<and> lock_inv l' \<and> (fd l' \<noteq> None \<longleftrightarrow> a)
     \<and> (\<not> a \<longrightarrow> held l' = {})
     \<and> inhibit_calls l' = inhibit_calls l + (if a \<and> fd l = None then 1 else 0)"
proof (cases a)
  case True
  then show ?thesis using bridge_tick_Ok [where smp = smp and w = w, OF assms] lock_idle_ok_state [of l ok] assms lock_idle_inv
    by auto
next
  case False
  then show ?thesis using bridge_tick_Ok [where smp = smp and w = w, OF assms] unlock_idle_released [OF assms(1)]
      unlock_idle_inv [OF assms(1)] unlock_idle_calls by auto
qed

lemma bridge_exit_unlocked:
  assumes "held ld = {}"
  shows "\<exists>e w' l'. inhibit_idle_when_gamepads_active smp bus_ok ws w ld = Raised e (w', l')
     \<and> (e = CancelledError \<or> e = DBusException) \<and> fd l' = None \<and> held l' = {}"
proof (cases bus_ok)
  case False
  then show ?thesis using assms by (simp add: inhibit_idle_when_gamepads_active_def idle_lock_init_def)
next
  case True
  let ?l = "ld\<lparr>fd := None\<rparr>"
  have inv: "lock_inv ?l" using assms by (simp add: lock_inv_def)
  show ?thesis
  proof (cases "bridge_loop smp ws (w, ?l)")
    case (Ok st)
    obtain w' l' where st: "st = (w', l')" by (cases st)
    have "lock_inv l'" using bridge_loop_inv [OF inv] Ok st by simp
    then show ?thesis using True Ok st unlock_idle_released
      by (simp add: inhibit_idle_when_gamepads_active_def idle_lock_init_def)
  next
    case (Raised e st)
    obtain w' l' where st: "st = (w', l')" by (cases st)
    have "fd l' = None \<and> lock_inv l' \<and> e = DBusException"
      using bridge_loop_unlocked_on_error [OF inv] Raised st by simp
    then show ?thesis using True Raised st
      by (auto simp: inhibit_idle_when_gamepads_active_def idle_lock_init_def lock_inv_def)
  qed
qed

lemma bridge_loop_refines:
  assumes "lock_inv l" and "\<forall>win \<in> set ws. snd win"
  shows "\<exists>w' l'. bridge_loop smp ws (w, l) = Ok (w', l') \<and> lock_inv l'
     \<and> (fd l' \<noteq> None \<longleftrightarrow> abs_locked (fd l \<noteq> None) (samples smp ws w))
     \<and> inhibit_calls l' = inhibit_calls l + rises (fd l \<noteq> None) (samples smp ws w)"
  using assms
proof (induction ws arbitrary: w l)
  case Nil
  then show ?case by simp
next
  case (Cons win ws)
  obtain env ok where win: "win = (env, ok)" by (cases win)
  with Cons.prems have ok: ok by simp
  obtain a w1 where a: "smp (env w) = (a, w1)" by (cases "smp (env w)")
  obtain l1 where l1: "bridge_tick smp ok (env w, l) = Ok (w1, l1)" "lock_inv l1" "(fd l1 \<noteq> None \<longleftrightarrow> a)"
    "inhibit_calls l1 = inhibit_calls l + (if a \<and> fd l = None then 1 else 0)"
    using bridge_tick_state [where smp = smp and w = "env w", OF Cons.prems(1) a] ok by blast
  have rest: "\<forall>x \<in> set ws. snd x" using Cons.prems(2) by simp
  obtain w' l' where ih: "bridge_loop smp ws (w1, l1) = Ok (w', l')" "lock_inv l'"
    "fd l' \<noteq> None \<longleftrightarrow> abs_locked (fd l1 \<noteq> None) (samples smp ws w1)"
    "inhibit_calls l' = inhibit_calls l1 + rises (fd l1 \<noteq> None) (samples smp ws w1)"
    using Cons.IH [of l1 w1] l1(2) rest by blast
  show ?case using ih l1 win a by auto
qed

lemma bridge_loop_world:
  assumes "P w" and "\<forall>win \<in> set ws. \<forall>x. P x \<longrightarrow> P (fst win x)" and "\<forall>x. P x \<longrightarrow> P (snd (smp x))"
  shows "P (fst (state_of (bridge_loop smp ws (w, l))))"
  using assms(1,2)
proof (induction ws arbitrary: w l)
  case Nil
  then show ?case by simp
next
  case (Cons win ws)
  obtain env ok where win: "win = (env, ok)" by (cases win)
  obtain a w1 where a: "smp (env w) = (a, w1)" by (cases "smp (env w)")
  have "P (env w)" using Cons.prems win by simp
  then have p1: "P w1" using assms(3) a by (metis snd_conv)
  have t: "bridge_tick smp ok (env w, l) = map_outcome (\<lambda>l'. (w1, l')) (lock_idle ok l)
         \<or> bridge_tick smp ok (env w, l) = Ok (w1, unlock_idle l)"
    using a by (simp add: bridge_tick_def)
  show ?case
  proof (cases "bridge_tick smp ok (env w, l)")
    case (Ok st')
    obtain w2 l2 where st': "st' = (w2, l2)" by (cases st')
    have "w2 = w1" using t Ok st' by (cases "lock_idle ok l") auto
    then show ?thesis using Cons.IH [of w2 l2] Cons.prems(2) p1 Ok st' win by simp
  next
    case (Raised e st')
    then have "fst st' = w1" using t by (cases "lock_idle ok l") auto
    then show ?thesis using p1 Raised win by simp
  qed
qed

lemma inhibit_idle_world:
  assumes "P w" and "\<forall>win \<in> set ws. \<forall>x. P x \<longrightarrow> P (fst win x)" and "\<forall>x. P x \<longrightarrow> P (snd (smp x))"
  shows "P (fst (state_of (inhibit_idle_when_gamepads_active smp bus_ok ws w ld)))"
  using bridge_loop_world [OF assms, of "state_of (idle_lock_init bus_ok ld)"] assms(1)
  by (auto simp: inhibit_idle_when_gamepads_active_def split: outcome.splits prod.splits)

lemma lock_idle_counts:
  "inhibit_calls (state_of (lock_idle ok l)) \<le> Suc (inhibit_calls l)
   \<and> next_fd (state_of (lock_idle ok l)) \<le> Suc (next_fd l)"
  by (simp add: lock_idle_def)

lemma unlock_idle_next_fd: "next_fd (unlock_idle l) = next_fd l"
  by (simp add: unlock_idle_def split: option.splits)

definition sample_flag :: "bool \<Rightarrow> bool \<times> bool" where
  "sample_flag b = (b, False)"

subsection \<open>Properties\<close>

text \<open>C5: the bridge task never ends holding the lock: it ends either by cancellation,
  after its final \<open>unlock_idle()\<close>, or by a D-Bus error, which happens only while no
  lock is held; in both cases logind holds no lock of the process.\<close>

theorem bridge_never_exits_locked:
  assumes "held ld = {}"
  shows "\<exists>e w' l'. inhibit_idle_when_gamepads_active smp bus_ok ws w ld = Raised e (w', l')
     \<and> (e = CancelledError \<or> e = DBusException) \<and> fd l' = None \<and> held l' = {}"
  by (rule bridge_exit_unlocked [OF assms])

theorem bridge_never_exits_locked_witness:
  "held fresh_lock = {}
   \<and> inhibit_idle_when_gamepads_active sample_flag True [(\<lambda>_. True, True), (\<lambda>_. True, True)] False fresh_lock
       = Raised CancelledError (False, lock1\<lparr>fd := None, held := {}\<rparr>)"
proof -
  have h: "held fresh_lock = {}" by (simp add: fresh_lock_def)
  obtain e w' l' where "inhibit_idle_when_gamepads_active sample_flag True [(\<lambda>_. True, True), (\<lambda>_. True, True)] False fresh_lock = Raised e (w', l')"
    using bridge_never_exits_locked [where smp = sample_flag and bus_ok = True and w = False
        and ws = "[(\<lambda>_. True, True), (\<lambda>_. True, True)]", OF h] by blast
  then show ?thesis using h
    by (simp add: inhibit_idle_when_gamepads_active_def idle_lock_init_def bridge_tick_def sample_flag_def
        lock_idle_def unlock_idle_def fresh_lock_def lock1_def)
qed

text \<open>C23: a failed \<open>Inhibit\<close> call is not retried at the next tick as the spec says:
  \<open>lock_idle\<close> does not catch the D-Bus exception, so the first tick that sees activity
  while unlocked and whose request fails ends the bridge loop and the whole task with
  \<open>DBusException\<close>, whatever the later windows would have been.\<close>

theorem inhibit_failure_ends_bridge:
  assumes "fd l = None" and "smp (env w) = (True, w')"
  shows "bridge_loop smp ((env, False) # ws) (w, l) = Raised DBusException (w', l\<lparr>inhibit_calls := Suc (inhibit_calls l)\<rparr>)
     \<and> inhibit_idle_when_gamepads_active smp True ((env, False) # ws) w l
         = Raised DBusException (w', l\<lparr>inhibit_calls := Suc (inhibit_calls l)\<rparr>)"
proof -
  have "idle_lock_init True l = Ok l" using assms(1) by (simp add: idle_lock_init_def)
  moreover have "bridge_loop smp ((env, False) # ws) (w, l) = Raised DBusException (w', l\<lparr>inhibit_calls := Suc (inhibit_calls l)\<rparr>)"
    using assms by (simp add: bridge_tick_def lock_idle_def)
  ultimately show ?thesis by (simp add: inhibit_idle_when_gamepads_active_def)
qed

theorem inhibit_failure_ends_bridge_witness:
  "fd fresh_lock = None \<and> sample_flag ((\<lambda>_. True) False) = (True, False)
   \<and> inhibit_idle_when_gamepads_active sample_flag True [(\<lambda>_. True, False), (\<lambda>_. True, True)] False fresh_lock
       = Raised DBusException (False, fresh_lock\<lparr>inhibit_calls := 1\<rparr>)"
proof -
  have h: "fd fresh_lock = None" "sample_flag ((\<lambda>_. True) False) = (True, False)"
    by (simp_all add: fresh_lock_def sample_flag_def)
  show ?thesis using inhibit_failure_ends_bridge [where smp = sample_flag and env = "\<lambda>_. True" and w = False and ws = "[(\<lambda>_. True, True)]", OF h] h
    by (simp add: fresh_lock_def)
qed

text \<open>C3: with every \<open>Inhibit\<close> call succeeding, the bridge loop refines the abstract
  two-state machine: after any number of ticks it is locked exactly when the last window
  saw activity (or, with no tick yet, as it started), and the number of \<open>Inhibit\<close>
  requests it made is the number of unlocked-to-locked transitions of the sampled
  activity sequence.\<close>

theorem bridge_refines_two_state:
  assumes "lock_inv l" and "\<forall>win \<in> set ws. snd win"
  shows "\<exists>w' l'. bridge_loop smp ws (w, l) = Ok (w', l') \<and> lock_inv l'
     \<and> (fd l' \<noteq> None \<longleftrightarrow> abs_locked (fd l \<noteq> None) (samples smp ws w))
     \<and> inhibit_calls l' = inhibit_calls l + rises (fd l \<noteq> None) (samples smp ws w)"
  by (rule bridge_loop_refines [OF assms])

theorem bridge_refines_two_state_witness:
  "lock_inv fresh_lock \<and> snd (\<lambda>_::bool. True, True) \<and> snd (\<lambda>_::bool. False, True) \<and> snd (\<lambda>_::bool. True, True)
   \<and> samples sample_flag [(\<lambda>_. True, True), (\<lambda>_. False, True), (\<lambda>_. True, True)] False = [True, False, True]
   \<and> (\<exists>w' l'. bridge_loop sample_flag [(\<lambda>_. True, True), (\<lambda>_. False, True), (\<lambda>_. True, True)] (False, fresh_lock) = Ok (w', l')
          \<and> fd l' \<noteq> None \<and> inhibit_calls l' = 2)"
proof -
  have s: "samples sample_flag [(\<lambda>_. True, True), (\<lambda>_. False, True), (\<lambda>_. True, True)] False = [True, False, True]"
    by (simp add: sample_flag_def)
  have h: "\<forall>win \<in> set [(\<lambda>_::bool. True, True), (\<lambda>_. False, True), (\<lambda>_. True, True)]. snd win" by simp
  show ?thesis using bridge_refines_two_state [OF fresh_lock_inv h, of sample_flag False] s fresh_lock_inv
    by (auto simp: fresh_lock_def numeral_2_eq_2)
qed

text \<open>C32: the bridge makes at most one \<open>Inhibit\<close> request per window that saw
  activity, and logind hands it at most one new descriptor for each: however long it
  runs, the requests are bounded by the active windows, never by the ticks.\<close>

theorem inhibit_requests_bounded:
  "inhibit_calls (snd (state_of (bridge_loop smp ws (w, l)))) \<le> inhibit_calls l + length (filter id (samples smp ws w))
   \<and> next_fd (snd (state_of (bridge_loop smp ws (w, l)))) \<le> next_fd l + length (filter id (samples smp ws w))"
proof (induction ws arbitrary: w l)
  case Nil
  then show ?case by simp
next
  case (Cons win ws)
  obtain env ok where win: "win = (env, ok)" by (cases win)
  obtain a w1 where a: "smp (env w) = (a, w1)" by (cases "smp (env w)")
  let ?l1 = "if a then state_of (lock_idle ok l) else unlock_idle l"
  have tick: "bridge_tick smp ok (env w, l) = (if a then map_outcome (\<lambda>l'. (w1, l')) (lock_idle ok l) else Ok (w1, unlock_idle l))"
    using a by (simp add: bridge_tick_def)
  have c1: "inhibit_calls ?l1 \<le> inhibit_calls l + (if a then 1 else 0)"
    and n1: "next_fd ?l1 \<le> next_fd l + (if a then 1 else 0)"
    using lock_idle_counts [of ok l] by (simp_all add: unlock_idle_calls unlock_idle_next_fd)
  have samp: "samples smp (win # ws) w = a # samples smp ws w1" using win a by simp
  show ?case
  proof (cases "bridge_tick smp ok (env w, l)")
    case (Ok st)
    then have st: "st = (w1, ?l1)" using tick by (cases "lock_idle ok l") (auto split: if_splits)
    have "bridge_loop smp (win # ws) (w, l) = bridge_loop smp ws (w1, ?l1)" using win Ok st by simp
    then show ?thesis using Cons.IH [of w1 ?l1] c1 n1 samp by auto
  next
    case (Raised e st)
    then have "snd st = ?l1" using tick by (cases "lock_idle ok l") (auto split: if_splits)
    moreover have "bridge_loop smp (win # ws) (w, l) = Raised e st" using win Raised by simp
    ultimately show ?thesis using c1 n1 samp by auto
  qed
qed

end
