(* ===== verification/Orchestrator.thy ===== *)
theory Orchestrator
  imports Finder Watcher_Props Bridge
begin

text \<open>
  The process orchestrator, coroutine \<open>main()\<close> of src/gamepad-lock-inhibit.py, and the
  glue between the three components: the finder's callbacks are the supervisor's
  \<open>add_device\<close>/\<open>remove_device\<close> (\<open>hotplug_event\<close>); the bridge's sampler is
  \<open>watcher.get_and_reset_active\<close>; a sampling window is the list of callbacks and
  task steps the event loop runs during the bridge's sleep (\<open>loop_events\<close>). An event
  that is not enabled is not run, and an exception raised by a callback is reported by
  the event loop's exception handler and ends nothing but that callback, so the state
  it reached is kept.
\<close>

definition hotplug_event :: "hotplug \<Rightarrow> sup_event" where
  "hotplug_event h = (case h of HAdd p \<Rightarrow> EvAdd p | HRemove p \<Rightarrow> EvRemove p)"

fun loop_events :: "opener \<Rightarrow> sup_event list \<Rightarrow> watcher \<Rightarrow> watcher" where
  "loop_events opn [] s = s"
| "loop_events opn (e # es) s =
     loop_events opn es (case sup_step opn e s of None \<Rightarrow> s | Some r \<Rightarrow> state_of r)"

text \<open>A sampling window: what the loop runs during the sleep, and whether the
  \<open>Inhibit\<close> call of the tick that ends it succeeds.\<close>

definition event_window :: "opener \<Rightarrow> sup_event list \<times> bool \<Rightarrow> watcher window" where
  "event_window opn w = (loop_events opn (fst w), snd w)"

text \<open>
  The observable steps of \<open>main()\<close> in the order they happen: the observer thread is
  started, the supervisor is started, the bridge performs its final \<open>unlock_idle()\<close>,
  the observer is stopped, \<open>watcher.stop()\<close> returns, \<open>inhibit_task.cancel()\<close> is
  called.
\<close>

datatype main_step =
    ObserverStart | SupervisorStart | BridgeUnlock | ObserverStop | SupervisorStop | BridgeCancel

record sys =
  sys_watcher :: watcher
  sys_lock :: lock_state
  sys_finder :: gamepads_finder
  sys_trace :: "main_step list"

text \<open>
  \<open>main()\<close>: the supervisor is built and given the finder's snapshot, the bridge task is
  created (it first runs at \<open>await inhibit_task\<close>, after \<open>finder.start()\<close> and
  \<open>watcher.start()\<close>), and \<open>main\<close> awaits it over the windows \<open>ws\<close>. The windows carry
  the callbacks the observer queued and the loop ran (the observer thread itself is
  modelled in Finder). An external cancellation of \<open>main\<close> at the end of the windows
  cancels the awaited bridge task, which unlocks and re-raises. The loop steps \<open>mid\<close>
  run after the bridge's last sample: those of the last, unfinished window and those
  before \<open>main\<close> resumes after the bridge task has ended. \<open>main\<close> then runs its
  handler: \<open>finder.stop()\<close>, then \<open>await watcher.stop()\<close>, during which the loop runs the
  steps \<open>drain\<close> (\<open>None\<close>: still waiting), then \<open>inhibit_task.cancel()\<close>. Any other
  exception propagates out of \<open>main\<close>. \<open>ld\<close> is logind's lock state for the process
  when it starts.
\<close>

definition main_run ::
  "opener \<Rightarrow> udev_device list \<Rightarrow> bool \<Rightarrow> (sup_event list \<times> bool) list \<Rightarrow> sup_event list
   \<Rightarrow> sup_event list \<Rightarrow> lock_state \<Rightarrow> sys outcome option" where
  "main_run opn devs bus_ok ws mid drain ld =
     (let f0 = finder_init devs; s0 = set_init_devices (finder_devices f0) watcher_init in
      case finder_start f0 of
        Raised e f1 \<Rightarrow>
          Some (Raised e \<lparr>sys_watcher = s0, sys_lock = ld, sys_finder = f1, sys_trace = []\<rparr>)
      | Ok f1 \<Rightarrow>
      (case start opn s0 of
        Raised e s1 \<Rightarrow>
          Some (Raised e \<lparr>sys_watcher = s1, sys_lock = ld, sys_finder = f1,
                          sys_trace = [ObserverStart]\<rparr>)
      | Ok s1 \<Rightarrow>
          (case inhibit_idle_when_gamepads_active get_and_reset_active bus_ok
                  (map (event_window opn) ws) s1 ld of
             Raised CancelledError (s2', l2) \<Rightarrow>
               (let s2 = loop_events opn mid s2' in
                case stop_begin s2 of
                  Raised e s3 \<Rightarrow>
                    Some (Raised e \<lparr>sys_watcher = s3, sys_lock = l2, sys_finder = finder_stop f1,
                                    sys_trace = [ObserverStart, SupervisorStart, BridgeUnlock, ObserverStop]\<rparr>)
                | Ok s3 \<Rightarrow>
                    (case gather (stop_gathers s2) (loop_events opn drain s3) of
                       None \<Rightarrow> None
                     | Some (Raised e s4) \<Rightarrow>
                         Some (Raised e \<lparr>sys_watcher = s4, sys_lock = l2, sys_finder = finder_stop f1,
                                         sys_trace = [ObserverStart, SupervisorStart, BridgeUnlock, ObserverStop]\<rparr>)
                     | Some (Ok s4) \<Rightarrow>
                         Some (Ok \<lparr>sys_watcher = s4, sys_lock = l2, sys_finder = finder_stop f1,
                                   sys_trace = [ObserverStart, SupervisorStart, BridgeUnlock, ObserverStop,
                                                SupervisorStop, BridgeCancel]\<rparr>)))
           | Raised e (s2, l2) \<Rightarrow>
               Some (Raised e \<lparr>sys_watcher = loop_events opn mid s2, sys_lock = l2, sys_finder = f1,
                               sys_trace = [ObserverStart, SupervisorStart]\<rparr>)
           | Ok (s2, l2) \<Rightarrow>
               Some (Ok \<lparr>sys_watcher = loop_events opn mid s2, sys_lock = l2, sys_finder = f1,
                         sys_trace = [ObserverStart, SupervisorStart]\<rparr>))))"

text \<open>The freshly built finder always starts; \<open>main_run\<close> is unfolded through this.\<close>

lemma main_run_eq:
  "main_run opn devs bus_ok ws mid drain ld =
     (let f1 = (finder_init devs)\<lparr>observer := ObsRunning\<rparr> in
      case start opn (set_init_devices (discover devs) watcher_init) of
        Raised e s1 \<Rightarrow>
          Some (Raised e \<lparr>sys_watcher = s1, sys_lock = ld, sys_finder = f1,
                          sys_trace = [ObserverStart]\<rparr>)
      | Ok s1 \<Rightarrow>
          (case inhibit_idle_when_gamepads_active get_and_reset_active bus_ok
                  (map (event_window opn) ws) s1 ld of
             Raised CancelledError (s2', l2) \<Rightarrow>
               (let s2 = loop_events opn mid s2' in
                case stop_begin s2 of
                  Raised e s3 \<Rightarrow>
                    Some (Raised e \<lparr>sys_watcher = s3, sys_lock = l2, sys_finder = finder_stop f1,
                                    sys_trace = [ObserverStart, SupervisorStart, BridgeUnlock, ObserverStop]\<rparr>)
                | Ok s3 \<Rightarrow>
                    (case gather (stop_gathers s2) (loop_events opn drain s3) of
                       None \<Rightarrow> None
                     | Some (Raised e s4) \<Rightarrow>
                         Some (Raised e \<lparr>sys_watcher = s4, sys_lock = l2, sys_finder = finder_stop f1,
                                         sys_trace = [ObserverStart, SupervisorStart, BridgeUnlock, ObserverStop]\<rparr>)
                     | Some (Ok s4) \<Rightarrow>
                         Some (Ok \<lparr>sys_watcher = s4, sys_lock = l2, sys_finder = finder_stop f1,
                                   sys_trace = [ObserverStart, SupervisorStart, BridgeUnlock, ObserverStop,
                                                SupervisorStop, BridgeCancel]\<rparr>)))
           | Raised e (s2, l2) \<Rightarrow>
               Some (Raised e \<lparr>sys_watcher = loop_events opn mid s2, sys_lock = l2, sys_finder = f1,
                               sys_trace = [ObserverStart, SupervisorStart]\<rparr>)
           | Ok (s2, l2) \<Rightarrow>
               Some (Ok \<lparr>sys_watcher = loop_events opn mid s2, sys_lock = l2, sys_finder = f1,
                         sys_trace = [ObserverStart, SupervisorStart]\<rparr>)))"
  by (simp add: main_run_def finder_start_def finder_init_def Let_def)

subsection \<open>Lemmas shared by the system properties\<close>

text \<open>After \<open>stop()\<close> has cleared \<open>started\<close>, no task is created any more and a task that
  has ended never runs again.\<close>

definition dead_kept :: "watcher \<Rightarrow> watcher \<Rightarrow> bool" where
  "dead_kept s s' \<longleftrightarrow> \<not> started s' \<and> length (rt s') = length (rt s)
     \<and> (\<forall>t < length (rt s). \<not> alive (t_status (rt s ! t)) \<longrightarrow> \<not> alive (t_status (rt s' ! t)))"

lemma dead_kept_refl: "\<not> started s \<Longrightarrow> dead_kept s s"
  by (simp add: dead_kept_def)

lemma dead_kept_trans: "dead_kept s s1 \<Longrightarrow> dead_kept s1 s2 \<Longrightarrow> dead_kept s s2"
  by (simp add: dead_kept_def)

lemma dead_kept_rt: "rt s' = rt s \<Longrightarrow> \<not> started s' \<Longrightarrow> dead_kept s s'"
  by (simp add: dead_kept_def)

lemma set_status_dead_kept:
  "\<not> started s \<Longrightarrow> (\<not> alive (t_status (rt s ! t)) \<longrightarrow> \<not> alive (f (t_status (rt s ! t)))) \<Longrightarrow>
     dead_kept s (set_status t f s)"
  by (auto simp: dead_kept_def set_status_nth)

lemma task_step_dead: "task_step te st = Some st' \<Longrightarrow> \<not> alive st \<Longrightarrow> \<not> alive st'"
  by (cases te; cases st) auto

lemma cancel_status_dead: "\<not> alive st \<Longrightarrow> cancel_status st = st"
  by (cases st) simp_all

lemma alive_iff_ended: "alive st \<longleftrightarrow> ended_cause st = None"
  by (cases st) simp_all

lemma sup_step_dead_kept:
  assumes "\<not> started s" and "sup_step opn e s = Some r"
  shows "dead_kept s (state_of r)"
proof (cases e)
  case (EvAdd p)
  then show ?thesis using assms
    by (auto simp: add_device_def dead_kept_def split: option.splits)
next
  case (EvRemove p)
  have c: "dead_kept s (cancel_task t s)" for t
    unfolding cancel_task_def using assms(1) by (rule set_status_dead_kept) (simp add: cancel_status_dead)
  show ?thesis
  proof (cases "dict_get (tasks s) p")
    case None
    then show ?thesis using assms EvRemove by (auto simp: remove_device_def dead_kept_def)
  next
    case (Some t)
    have "rt (state_of r) = rt (cancel_task t s) \<and> \<not> started (state_of r)"
      using assms EvRemove Some by (auto simp: remove_device_def Let_def split: option.splits)
    then show ?thesis using c [of t] dead_kept_rt dead_kept_trans by blast
  qed
next
  case (EvTask t te)
  then obtain st st' where st: "task_status_of s t = Some st" "task_step te st = Some st'"
    and r: "r = task_effect t te (set_status t (\<lambda>_. st') s)"
    using assms(2) by (auto split: option.splits)
  have t: "t < length (rt s)" "st = t_status (rt s ! t)"
    using st(1) by (auto simp: task_status_of_def split: if_splits)
  let ?s1 = "set_status t (\<lambda>_. st') s"
  have d1: "dead_kept s ?s1"
    using assms(1) task_step_dead [OF st(2)] t(2) by (intro set_status_dead_kept) auto
  have "rt (state_of r) = rt ?s1 \<and> \<not> started (state_of r)"
    using r assms(1) by (cases te) (auto simp: finish_removing_device_def)
  then show ?thesis using d1 dead_kept_rt dead_kept_trans by blast
qed

lemma loop_events_dead_kept: "\<not> started s \<Longrightarrow> dead_kept s (loop_events opn es s)"
proof (induction es arbitrary: s)
  case Nil
  then show ?case by (simp add: dead_kept_refl)
next
  case (Cons e es)
  let ?s1 = "case sup_step opn e s of None \<Rightarrow> s | Some r \<Rightarrow> state_of r"
  have d: "dead_kept s ?s1"
    using Cons.prems sup_step_dead_kept [OF Cons.prems] by (auto simp: dead_kept_refl split: option.split)
  then have "\<not> started ?s1" by (simp add: dead_kept_def)
  then show ?case using Cons.IH d dead_kept_trans by simp
qed

lemma loop_events_reach: "sup_reach s \<Longrightarrow> sup_reach (loop_events opn es s)"
proof (induction es arbitrary: s)
  case Nil
  then show ?case by simp
next
  case (Cons e es)
  then show ?case by (auto intro: sup_reach.step split: option.split)
qed

lemma cancel_all_tasks: "tasks (state_of (cancel_all ts s)) = tasks s"
  by (induction ts s rule: cancel_all.induct) simp_all

lemma gather_Ok:
  "gather ts s = Some (Ok s') \<Longrightarrow> s' = s \<and> (\<forall>t \<in> set ts. ended_cause (t_status (rt s ! t)) \<noteq> None)"
  by (auto simp: gather_def split: if_splits)

text \<open>The supervisor state the bridge leaves behind is one the running program reaches.\<close>

lemma bridge_world_reach:
  assumes "sup_reach s"
  shows "sup_reach (fst (state_of (inhibit_idle_when_gamepads_active get_and_reset_active bus_ok
                                     (map (event_window opn) ws) s ld)))"
  by (rule inhibit_idle_world) (auto simp: assms event_window_def loop_events_reach intro: sup_reach.sample)

lemma inhibit_idle_raises: "\<exists>e st. inhibit_idle_when_gamepads_active smp bus_ok ws w ld = Raised e st"
  by (auto simp: inhibit_idle_when_gamepads_active_def split: outcome.split prod.split)

lemma main_run_OkE:
  assumes "main_run opn devs bus_ok ws mid drain ld = Some (Ok st)"
  obtains s1 s2 l2 s3 where "start opn (set_init_devices (discover devs) watcher_init) = Ok s1"
    and "inhibit_idle_when_gamepads_active get_and_reset_active bus_ok (map (event_window opn) ws) s1 ld
           = Raised CancelledError (s2, l2)"
    and "stop_begin (loop_events opn mid s2) = Ok s3"
    and "gather (stop_gathers (loop_events opn mid s2)) (loop_events opn drain s3) = Some (Ok (sys_watcher st))"
    and "sys_lock st = l2" and "observer (sys_finder st) = ObsStopped"
    and "sys_trace st = [ObserverStart, SupervisorStart, BridgeUnlock, ObserverStop, SupervisorStop, BridgeCancel]"
proof (cases "start opn (set_init_devices (discover devs) watcher_init)")
  case (Ok s1)
  obtain e st0 where
    "inhibit_idle_when_gamepads_active get_and_reset_active bus_ok (map (event_window opn) ws) s1 ld = Raised e st0"
    using inhibit_idle_raises [of get_and_reset_active bus_ok "map (event_window opn) ws" s1 ld] by blast
  then show ?thesis using assms Ok that
    by (auto simp: main_run_eq Let_def finder_stop_def split: outcome.splits py_error.splits prod.splits option.splits)
next
  case (Raised e s1)
  then show ?thesis using assms by (simp add: main_run_eq Let_def)
qed

text \<open>Once \<open>stop()\<close> has returned, no monitor coroutine is alive: every live task was
  gathered, and nothing the loop runs after the flag is cleared revives or creates one.\<close>

lemma stop_leaves_no_monitor:
  assumes reach: "sup_reach s2" and stop: "stop_begin s2 = Ok s3"
    and g: "gather (stop_gathers s2) (loop_events opn drain s3) = Some (Ok s4)"
    and t: "t < length (rt s4)"
  shows "\<not> alive (t_status (rt s4 ! t))"
proof
  assume a: "alive (t_status (rt s4 ! t))"
  have r3: "sup_reach s3" using sup_reach.stop [OF reach] stop by simp
  have core: "sup_core s3" using sup_reach_inv [OF r3] by (simp add: sup_inv_def)
  have s3: "s3 = state_of (cancel_all (map snd (tasks s2)) (s2\<lparr>started := False\<rparr>))"
    using stop by (simp add: stop_begin_def)
  then have ns: "\<not> started s3" by (simp add: cancel_all_started)
  from g have s4: "s4 = loop_events opn drain s3"
    and ended: "\<forall>u \<in> set (stop_gathers s2). ended_cause (t_status (rt s4 ! u)) \<noteq> None"
    by (auto dest: gather_Ok)
  have dk: "dead_kept s3 s4" using loop_events_dead_kept [OF ns] s4 by simp
  then have t3: "t < length (rt s3)" and a3: "alive (t_status (rt s3 ! t))"
    using t a by (auto simp: dead_kept_def)
  have "map_of (tasks s3) (t_dev (rt s3 ! t)) = Some (Some t)"
    using core t3 alive_live [OF a3] by (rule sup_core_live)
  moreover have "tasks s3 = tasks s2" using s3 by (simp add: cancel_all_tasks)
  ultimately have "t \<in> set (stop_gathers s2)"
    by (force simp: stop_gathers_def dest: map_of_SomeD)
  then have "ended_cause (t_status (rt s4 ! t)) \<noteq> None" using ended by blast
  with a show False by (simp add: alive_iff_ended)
qed

text \<open>
  The activity a window carries: whether the loop ran an input step of a monitor during
  it. This is the reference the system-level property compares the bridge's sample with.
\<close>

fun is_input :: "sup_event \<Rightarrow> bool" where
  "is_input (EvTask t TInput) = True"
| "is_input _ = False"

fun input_seen :: "opener \<Rightarrow> sup_event list \<Rightarrow> watcher \<Rightarrow> bool" where
  "input_seen opn [] s = False"
| "input_seen opn (e # es) s =
     ((is_input e \<and> sup_step opn e s \<noteq> None)
      \<or> input_seen opn es (case sup_step opn e s of None \<Rightarrow> s | Some r \<Rightarrow> state_of r))"

fun window_inputs :: "opener \<Rightarrow> (sup_event list \<times> bool) list \<Rightarrow> watcher \<Rightarrow> bool list" where
  "window_inputs opn [] s = []"
| "window_inputs opn ((es, ok) # ws) s =
     input_seen opn es s # window_inputs opn ws (snd (get_and_reset_active (loop_events opn es s)))"

lemma sup_step_flag:
  "sup_step opn e s = Some r \<Longrightarrow>
     gamepad_active (state_of r) = (gamepad_active s \<or> is_input e) \<and> started (state_of r) = started s"
  by (cases e rule: is_input.cases)
     (auto simp: add_device_def create_monitor_task_def remove_device_def finish_removing_device_def Let_def
           cancel_task_def set_status_def split: option.splits if_splits)

lemma loop_events_flag:
  "gamepad_active (loop_events opn es s) = (gamepad_active s \<or> input_seen opn es s)
   \<and> started (loop_events opn es s) = started s"
  by (induction es arbitrary: s) (auto dest: sup_step_flag split: option.splits)

lemma samples_window_inputs:
  "\<not> gamepad_active s \<Longrightarrow>
     samples get_and_reset_active (map (event_window opn) ws) s = window_inputs opn ws s"
proof (induction ws arbitrary: s)
  case Nil
  then show ?case by simp
next
  case (Cons w ws)
  obtain es ok where w: "w = (es, ok)" by (cases w)
  then show ?case using Cons loop_events_flag [of opn es s]
    by (simp add: event_window_def get_and_reset_active_def)
qed

lemma start_loop_raises:
  "p \<in> set ps \<Longrightarrow> opn p = Some errno \<Longrightarrow> \<exists>e s'. start_loop opn ps s = Raised (OSError e) s'"
  by (induction ps arbitrary: s) (auto simp: create_monitor_task_eq split: option.splits outcome.splits)

lemma set_init_devices_keys:
  "fst ` set (tasks (set_init_devices ps s)) = fst ` set (tasks s) \<union> set ps"
  by (induction ps arbitrary: s) (auto simp: dom_update)

text \<open>An opener for which the node of \<open>event3\<close> is not readable (\<open>EACCES\<close>).\<close>

definition unreadable3 :: opener where
  "unreadable3 p = (if p = ev3 then Some 13 else None)"

lemmas scenario_simps = main_run_eq finder_init_def finder_stop_def pad3_def discover_def listed_def SUBSYSTEM_def SYS_NAME_PREFIX_def
  starts_with_def get_device_path_def start_def create_monitor_task_def watcher_init_def
  inhibit_idle_when_gamepads_active_def idle_lock_init_def fresh_lock_def event_window_def
  task_status_of_def set_status_def bridge_tick_def get_and_reset_active_def lock_idle_def
  unlock_idle_def stop_begin_def cancel_task_def stop_gathers_def gather_def

subsection \<open>Properties\<close>

text \<open>C6: when \<open>main()\<close> returns after an external cancellation, the process holds no
  idle lock, the observer thread is stopped and no monitor coroutine is alive. The
  shutdown order is not the spec's (observer, then supervisor, then the bridge's final
  unlock): cancelling \<open>main\<close> while it awaits \<open>inhibit_task\<close> cancels that task first, so
  the bridge unlocks before the observer and the supervisor are stopped, and the final
  \<open>inhibit_task.cancel()\<close> finds it already done.\<close>

theorem main_graceful_shutdown:
  assumes run: "main_run opn devs bus_ok ws mid drain ld = Some (Ok st)" and ld: "held ld = {}"
  shows "fd (sys_lock st) = None \<and> held (sys_lock st) = {} \<and> observer (sys_finder st) = ObsStopped
     \<and> (\<forall>t < length (rt (sys_watcher st)). \<not> alive (t_status (rt (sys_watcher st) ! t)))
     \<and> sys_trace st = [ObserverStart, SupervisorStart, BridgeUnlock, ObserverStop, SupervisorStop, BridgeCancel]"
proof -
  obtain s1 s2 l2 s3 where s1: "start opn (set_init_devices (discover devs) watcher_init) = Ok s1"
    and br: "inhibit_idle_when_gamepads_active get_and_reset_active bus_ok (map (event_window opn) ws) s1 ld
           = Raised CancelledError (s2, l2)"
    and stop: "stop_begin (loop_events opn mid s2) = Ok s3"
    and g: "gather (stop_gathers (loop_events opn mid s2)) (loop_events opn drain s3) = Some (Ok (sys_watcher st))"
    and rest: "sys_lock st = l2" "observer (sys_finder st) = ObsStopped"
      "sys_trace st = [ObserverStart, SupervisorStart, BridgeUnlock, ObserverStop, SupervisorStop, BridgeCancel]"
    using run by (rule main_run_OkE)
  have r1: "sup_reach s1" using s1 by (rule sup_reach.boot)
  have r2: "sup_reach s2"
    using bridge_world_reach [OF r1, where bus_ok = bus_ok and opn = opn and ws = ws and ld = ld] br by simp
  have "fd l2 = None \<and> held l2 = {}"
    using bridge_exit_unlocked [OF ld, where smp = get_and_reset_active and bus_ok = bus_ok
        and ws = "map (event_window opn) ws" and w = s1] br by auto
  moreover have "\<forall>t < length (rt (sys_watcher st)). \<not> alive (t_status (rt (sys_watcher st) ! t))"
    using stop_leaves_no_monitor [OF loop_events_reach [OF r2] stop g] by blast
  ultimately show ?thesis using rest by simp
qed

theorem main_graceful_shutdown_witness:
  "held fresh_lock = {}
   \<and> (\<exists>st. main_run (\<lambda>_. None) [pad3] True [([EvTask 0 TBegin, EvTask 0 TInput], True)]
              [EvTask 0 TInput] [EvTask 0 TCancelled] fresh_lock = Some (Ok st)
         \<and> fd (sys_lock st) = None \<and> inhibit_calls (sys_lock st) = 1 \<and> opened (sys_watcher st) = {0}
         \<and> sys_trace st = [ObserverStart, SupervisorStart, BridgeUnlock, ObserverStop, SupervisorStop, BridgeCancel])"
proof -
  have ld: "held fresh_lock = {}" by (simp add: fresh_lock_def)
  obtain st where run: "main_run (\<lambda>_. None) [pad3] True [([EvTask 0 TBegin, EvTask 0 TInput], True)]
              [EvTask 0 TInput] [EvTask 0 TCancelled] fresh_lock = Some (Ok st)"
    and st: "inhibit_calls (sys_lock st) = 1" "opened (sys_watcher st) = {0}"
    by (simp add: scenario_simps)
  show ?thesis using main_graceful_shutdown [OF run ld] ld run st by blast
qed

text \<open>C4: in the running system the lock follows the gamepads: with the bridge sampling
  the supervisor and every \<open>Inhibit\<close> call succeeding, after each tick the process holds
  the lock exactly when the loop ran a monitor's input step during the last window, and it
  requests a new lock exactly at the windows with input that follow a window without.\<close>

theorem system_lock_follows_input:
  assumes "\<not> gamepad_active s" and "lock_inv l" and "\<forall>w \<in> set ws. snd w"
  shows "\<exists>s' l'. bridge_loop get_and_reset_active (map (event_window opn) ws) (s, l) = Ok (s', l')
     \<and> (fd l' \<noteq> None \<longleftrightarrow> abs_locked (fd l \<noteq> None) (window_inputs opn ws s))
     \<and> inhibit_calls l' = inhibit_calls l + rises (fd l \<noteq> None) (window_inputs opn ws s)"
proof -
  have "\<forall>win \<in> set (map (event_window opn) ws). snd win"
    using assms(3) by (auto simp: event_window_def)
  from bridge_loop_refines [OF assms(2) this, of get_and_reset_active s] show ?thesis
    unfolding samples_window_inputs [OF assms(1)] by blast
qed

theorem system_lock_follows_input_witness:
  "\<not> gamepad_active boot3 \<and> lock_inv fresh_lock
   \<and> window_inputs (\<lambda>_. None) [([EvTask 0 TBegin, EvTask 0 TInput], True), ([], True)] boot3 = [True, False]
   \<and> (\<exists>s' l'. bridge_loop get_and_reset_active
                 (map (event_window (\<lambda>_. None)) [([EvTask 0 TBegin, EvTask 0 TInput], True), ([], True)])
                 (boot3, fresh_lock) = Ok (s', l')
         \<and> fd l' = None \<and> inhibit_calls l' = 1)"
proof -
  have a: "\<not> gamepad_active boot3" by (simp add: boot3_def)
  have h: "\<forall>w \<in> set [([EvTask 0 TBegin, EvTask 0 TInput], True), ([]::sup_event list, True)]. snd w" by simp
  have i: "window_inputs (\<lambda>_. None) [([EvTask 0 TBegin, EvTask 0 TInput], True), ([], True)] boot3 = [True, False]"
    by (simp add: boot3_def task_status_of_def set_status_def get_and_reset_active_def)
  show ?thesis
    using system_lock_follows_input [OF a fresh_lock_inv h, of "\<lambda>_. None"] a fresh_lock_inv i
    by (simp add: fresh_lock_def)
qed

text \<open>C24: a failed \<open>Inhibit\<close> call is fatal to the whole process, whereas the spec
  makes lock-service errors non-fatal: the bridge raises \<open>DBusException\<close>, which
  \<open>main()\<close> does not catch, so \<open>main\<close> ends with it while the observer thread is still
  running and the supervisor still started; neither is ever stopped.\<close>

theorem main_dies_on_inhibit_failure:
  assumes "start opn (set_init_devices (discover devs) watcher_init) = Ok s1"
    and "input_seen opn es s1"
  shows "\<exists>st. main_run opn devs True ((es, False) # ws) mid drain ld = Some (Raised DBusException st)
     \<and> observer (sys_finder st) = ObsRunning \<and> started (sys_watcher st) \<and> sys_trace st = [ObserverStart, SupervisorStart]"
proof -
  have st1: "started s1" using assms(1) start_loop_started by (simp add: start_def)
  have "bridge_loop get_and_reset_active (map (event_window opn) ((es, False) # ws)) (s1, ld\<lparr>fd := None\<rparr>)
          = Raised DBusException ((loop_events opn es s1)\<lparr>gamepad_active := False\<rparr>,
                                  ld\<lparr>fd := None, inhibit_calls := Suc (inhibit_calls ld)\<rparr>)"
    using assms(2) loop_events_flag [of opn es s1]
    by (simp add: event_window_def bridge_tick_def get_and_reset_active_def lock_idle_def)
  then show ?thesis using assms(1) st1 loop_events_flag [of opn es s1]
      loop_events_flag [of opn mid "(loop_events opn es s1)\<lparr>gamepad_active := False\<rparr>"]
    by (simp add: main_run_eq Let_def inhibit_idle_when_gamepads_active_def idle_lock_init_def)
qed

theorem main_dies_on_inhibit_failure_witness:
  "start (\<lambda>_. None) (set_init_devices (discover [pad3]) watcher_init) = Ok boot3
   \<and> input_seen (\<lambda>_. None) [EvTask 0 TBegin, EvTask 0 TInput] boot3
   \<and> (\<exists>st. main_run (\<lambda>_. None) [pad3] True [([EvTask 0 TBegin, EvTask 0 TInput], False)] [] [] fresh_lock
            = Some (Raised DBusException st) \<and> observer (sys_finder st) = ObsRunning)"
proof -
  have d: "discover [pad3] = [ev3]"
    by (simp add: discover_def pad3_def listed_def SUBSYSTEM_def SYS_NAME_PREFIX_def starts_with_def
        get_device_path_def ev3_def)
  have s: "start (\<lambda>_. None) (set_init_devices (discover [pad3]) watcher_init) = Ok boot3"
    using boot3_start d by simp
  have i: "input_seen (\<lambda>_. None) [EvTask 0 TBegin, EvTask 0 TInput] boot3"
    by (simp add: boot3_def task_status_of_def set_status_def)
  show ?thesis using main_dies_on_inhibit_failure [OF s i, of "[]" "[]" "[]" fresh_lock] s i by blast
qed

text \<open>C26: a discovered gamepad that cannot be opened aborts the whole process at
  startup: \<open>watcher.start()\<close> lets the \<open>OSError\<close> of \<open>evdev.InputDevice\<close> escape and
  \<open>main()\<close> ends with it, after the observer thread was started and before the bridge
  ever ran; the spec counts only the hotplug subscription and the bus connection as
  fatal at startup.\<close>

theorem main_aborts_on_unopenable_gamepad:
  assumes "p \<in> set (discover devs)" and "opn p = Some errno"
  shows "\<exists>e st. main_run opn devs bus_ok ws mid drain ld = Some (Raised (OSError e) st)
     \<and> observer (sys_finder st) = ObsRunning \<and> sys_lock st = ld \<and> sys_trace st = [ObserverStart]"
proof -
  let ?s0 = "set_init_devices (discover devs) watcher_init"
  have "p \<in> set (map fst (tasks ?s0))"
    using assms(1) set_init_devices_keys [of "discover devs" watcher_init] by simp
  from start_loop_raises [where opn = opn and p = p and s = "?s0\<lparr>started := True\<rparr>", OF this assms(2)]
  obtain e s' where "start opn ?s0 = Raised (OSError e) s'"
    by (auto simp: start_def)
  then show ?thesis by (simp add: main_run_eq Let_def)
qed

theorem main_aborts_on_unopenable_gamepad_witness:
  "ev3 \<in> set (discover [pad3]) \<and> unreadable3 ev3 = Some 13
   \<and> (\<exists>e st. main_run unreadable3 [pad3] True [] [] [] fresh_lock = Some (Raised (OSError e) st))"
proof -
  have d: "ev3 \<in> set (discover [pad3])"
    by (simp add: discover_def pad3_def listed_def SUBSYSTEM_def SYS_NAME_PREFIX_def starts_with_def
        get_device_path_def ev3_def)
  have o: "unreadable3 ev3 = Some 13" by (simp add: unreadable3_def)
  show ?thesis
    using main_aborts_on_unopenable_gamepad [where opn = unreadable3 and p = ev3, OF d o,
        of True "[]" "[]" "[]" fresh_lock] d o by blast
qed

lemma listed_add_event:
  assumes "subsystem d = SUBSYSTEM" and "action d = ''add''" and "listed d"
  shows "on_new_event d = Inr (Some (HAdd (device_node d)))"
  using assms by (simp add: on_new_event_def listed_def asbool_def get_device_path_def)

lemma empty_start: "start opn (set_init_devices [] watcher_init) = Ok (watcher_init\<lparr>started := True\<rparr>)"
  by (simp add: start_def watcher_init_def)

text \<open>C33: a hotplug add of a gamepad goes end to end: the running observer thread queues
  exactly one callback for it; when the loop runs that callback on a started supervisor
  that does not track the path, the supervisor opens the device and creates its monitor
  task, registered under the path.\<close>

theorem hotplug_add_reaches_supervisor:
  assumes "observer f = ObsRunning" and "pending f = []"
    and "subsystem d = SUBSYSTEM" and "action d = ''add''" and "listed d"
    and "started s" and "map_of (tasks s) (device_node d) = None" and "opn (device_node d) = None"
  shows "\<exists>h f' s'. loop_callback (observer_event d f) = Some (h, f') \<and> pending f' = []
     \<and> sup_step opn (hotplug_event h) s = Some (Ok s')
     \<and> map_of (tasks s') (device_node d) = Some (Some (length (rt s)))
     \<and> t_dev (rt s' ! length (rt s)) = device_node d \<and> length (rt s) \<in> opened s'"
proof -
  let ?p = "device_node d"
  have "observer_event d f = f\<lparr>pending := [HAdd ?p]\<rparr>"
    using assms(1-5) listed_add_event [OF assms(3-5)] by (simp add: observer_event_def)
  then have cb: "loop_callback (observer_event d f) = Some (HAdd ?p, f\<lparr>pending := []\<rparr>)"
    by (simp add: loop_callback_def)
  have "add_device opn ?p s = Ok (created ?p s)"
    using assms(6-8) by (simp add: add_device_def dict_get_def create_monitor_task_eq)
  then have "sup_step opn (hotplug_event (HAdd ?p)) s = Some (Ok (created ?p s))"
    by (simp add: hotplug_event_def)
  moreover have "map_of (tasks (created ?p s)) ?p = Some (Some (length (rt s)))"
    by (simp add: update_conv')
  ultimately show ?thesis using cb by (auto simp: nth_append)
qed

theorem hotplug_add_reaches_supervisor_witness:
  "observer finder3 = ObsRunning \<and> pending finder3 = [] \<and> listed pad3
   \<and> sup_reach (watcher_init\<lparr>started := True\<rparr>)
   \<and> loop_callback (observer_event pad3 finder3) = Some (HAdd ev3, finder3)
   \<and> map_of (tasks (state_of (add_device (\<lambda>_. None) ev3 (watcher_init\<lparr>started := True\<rparr>)))) ev3 = Some (Some 0)"
proof -
  have h: "observer finder3 = ObsRunning" "pending finder3 = []" "subsystem pad3 = SUBSYSTEM"
    "action pad3 = ''add''" "listed pad3" "started (watcher_init\<lparr>started := True\<rparr>)"
    "map_of (tasks (watcher_init\<lparr>started := True\<rparr>)) (device_node pad3) = None"
    "(\<lambda>_. None) (device_node pad3) = (None :: nat option)"
    by (simp_all add: finder3_def pad3_def SUBSYSTEM_def listed_def SYS_NAME_PREFIX_def starts_with_def
        watcher_init_def)
  have n: "device_node pad3 = ev3" by (simp add: pad3_def ev3_def)
  have w: "length (rt (watcher_init\<lparr>started := True\<rparr>)) = 0" by (simp add: watcher_init_def)
  obtain hp f' s' where r: "loop_callback (observer_event pad3 finder3) = Some (hp, f')" "pending f' = []"
      "sup_step (\<lambda>_. None) (hotplug_event hp) (watcher_init\<lparr>started := True\<rparr>) = Some (Ok s')"
      "map_of (tasks s') (device_node pad3) = Some (Some 0)"
    using hotplug_add_reaches_supervisor [OF h] w by auto
  have cb: "loop_callback (observer_event pad3 finder3) = Some (HAdd ev3, finder3)"
    using listed_add_event [OF h(3-5)] h(1,2,3) n
    by (simp add: observer_event_def loop_callback_def finder3_def)
  then have "hp = HAdd ev3" using r(1) by simp
  then have "add_device (\<lambda>_. None) ev3 (watcher_init\<lparr>started := True\<rparr>) = Ok s'"
    using r(3) by (simp add: hotplug_event_def)
  moreover have "sup_reach (watcher_init\<lparr>started := True\<rparr>)"
    using empty_start [of "\<lambda>_. None"] by (rule sup_reach.boot)
  ultimately show ?thesis using h cb r(4) n by simp
qed

end
