(* ===== verification/Spec2Isabelle.thy ===== *)
theory Spec2Isabelle
  imports Prelude Finder Watcher Watcher_Inv Watcher_Props Watcher_Lifecycle IdleLock Bridge Orchestrator
begin

text \<open>
  A shallow embedding of src/gamepad-lock-inhibit.py, the daemon that keeps logind from
  treating the machine as idle while a game controller is in use.

  \<^bold>\<open>The program.\<close> Four parts cooperate on one asyncio event loop.
  \<^item> \<open>GamepadsFinder\<close> enumerates joystick input devices at start-up and then watches
    udev from a pyudev observer thread. It hands each hotplug add or remove to the loop
    with \<open>call_soon_threadsafe\<close>.
  \<^item> \<open>GamepadsWatcher\<close> (the supervisor) keeps one asyncio task per gamepad path. Each
    task reads the evdev device and sets the shared flag \<open>gamepad_active\<close>. A done
    callback forgets the path when the task ends.
  \<^item> \<open>IdleLock\<close> holds at most one logind \<open>Inhibit("shutdown:idle")\<close> file descriptor.
  \<^item> \<open>inhibit_idle_when_gamepads_active\<close> (the bridge) wakes every 30 s, reads and resets
    the flag, and locks or unlocks accordingly.
  \<open>main()\<close> wires them together and handles shutdown on cancellation.

  \<^bold>\<open>Theories and correspondence.\<close>
  \<^item> \<open>Prelude\<close> holds the exceptions as values (\<open>py_error\<close>) and the outcome of a
    statement sequence that may raise after changing the state (\<open>outcome\<close>: \<open>Ok\<close> or
    \<open>Raised\<close>, both carrying the state). It models Python dicts as association lists
    (\<open>AList.update\<close>/\<open>AList.delete\<close> keep the insertion order of \<open>d[k] = v\<close> and
    \<open>del d[k]\<close>), and holds the dict lemmas in \<open>dict_simps\<close>.
  \<^item> \<open>Finder\<close> models \<open>GamepadsFinder\<close>:
    \<^item> \<open>discover\<close> with \<open>listed\<close> is the \<open>list_devices\<close> call of \<open>__init__\<close>;
    \<^item> \<open>asbool\<close> is pyudev's \<open>properties.asbool\<close>;
    \<^item> \<open>on_new_event\<close> is \<open>_on_new_event\<close>, returning the scheduled callback;
    \<^item> \<open>observe\<close> is the observer thread over a stream of netlink events;
    \<^item> the record \<open>gamepads_finder\<close> is the object (snapshot, observer thread state
      \<open>observer_state\<close>, callbacks queued on the loop), built by \<open>finder_init\<close>
      (\<open>__init__\<close>) and driven by \<open>finder_start\<close>, \<open>finder_stop\<close>, \<open>observer_event\<close>
      (one netlink event reaching the thread) and \<open>loop_callback\<close> (the loop taking the
      next queued callback).
  \<^item> \<open>Watcher\<close> models \<open>GamepadsWatcher\<close>. The record \<open>watcher\<close> holds the object's four
    fields plus the runtime it acts on: \<open>rt\<close>, every asyncio task created, with its path
    and life-cycle status, and \<open>opened\<close>, the evdev objects not yet closed. Methods map
    to definitions:
    \<^item> \<open>set_init_devices\<close>, \<open>create_monitor_task\<close>, \<open>add_device\<close>, \<open>remove_device\<close>,
      \<open>finish_removing_device\<close> and \<open>get_and_reset_active\<close>: one definition each;
    \<^item> \<open>start\<close> over \<open>start_loop\<close>;
    \<^item> \<open>stop\<close>: \<open>stop_begin\<close> (flag and cancellations), \<open>stop_gathers\<close> and
      \<open>gather\<close> (the awaited \<open>asyncio.gather\<close>);
    \<^item> \<open>Task.cancel()\<close> is \<open>cancel_task\<close>;
    \<^item> the coroutine \<open>monitor_gamepad_events\<close> and the done callback are the task events
      of \<open>task_step\<close>/\<open>task_effect\<close>.
    \<open>sup_step\<close> is one step of the event loop: a hotplug callback or a task step.
  \<^item> \<open>Watcher_Inv\<close> holds the invariant \<open>sup_inv\<close> and the reachable states \<open>sup_reach\<close>,
    an inductive set: boot by \<open>start\<close> after \<open>set_init_devices\<close>, any loop step, the
    bridge's sample, \<open>stop()\<close>. Every operation preserves \<open>sup_inv\<close>; rule induction
    gives \<open>sup_reach_inv\<close>.
  \<^item> \<open>Watcher_Props\<close> holds the supervisor's properties and \<open>sup_run\<close>, a sequence of
    loop steps.
  \<^item> \<open>Watcher_Lifecycle\<close> holds the whole-life properties of the supervisor: a
    plug/unplug round trip, draining of pending cancellations and done callbacks
    (\<open>cleanup_run\<close>), a bound on live monitors, and the value type of \<open>self.tasks\<close>.
  \<^item> \<open>IdleLock\<close> models \<open>IdleLock\<close>: \<open>idle_lock_init\<close>, \<open>lock_idle\<close> and \<open>unlock_idle\<close>
    over \<open>lock_state\<close>, which also records the locks logind holds and the \<open>Inhibit\<close>
    calls made.
  \<^item> \<open>Bridge\<close> models the bridge: \<open>bridge_tick\<close> is one iteration, \<open>bridge_loop\<close> is
    \<open>while True\<close>, and \<open>inhibit_idle_when_gamepads_active\<close> is the whole coroutine. It is
    stated over any sampler \<open>'w \<Rightarrow> bool \<times> 'w\<close> (the interface of
    \<open>get_and_reset_active\<close>). It is refined against the abstract two-state machine
    \<open>abs_locked\<close>/\<open>rises\<close>.
  \<^item> \<open>Orchestrator\<close> models \<open>main()\<close> as \<open>main_run\<close>, with the finder object of
    \<open>Finder\<close> built, started and stopped in the order of the code, and glues the parts:
    \<^item> \<open>hotplug_event\<close> maps the finder's callbacks to the supervisor's;
    \<^item> a sampling window is the list of loop steps run during the bridge's sleep
      (\<open>loop_events\<close>, \<open>event_window\<close>), compared with \<open>window_inputs\<close>.

  \<^bold>\<open>What is proved.\<close>
  \<^item> The supervisor never has two live monitors for one path (C1) and keeps its
    invariant under every operation (C2).
  \<^item> The bridge refines the two-state machine (C3), and so does the whole system with
    the supervisor as sampler (C4). It never exits holding a lock (C5). \<open>main\<close>'s
    graceful shutdown leaves no lock, observer or monitor behind (C6).
  \<^item> \<open>stop()\<close> cancels every monitor and returns (C7, C8). Removal (C9, C10), start-up
    (C11), duplicate adds (C12), \<open>IdleLock\<close> idempotence (C13 to C15), the finder's
    filter (C16, C17) and quiescence after stop (C18) are specified.
  \<^item> C19 to C27 are divergences between the code and the spec:
    \<^item> a double remove raises (C19);
    \<^item> a re-plug during removal is lost (C20);
    \<^item> a read error leaves the device open and in \<open>devices\<close> (C21);
    \<^item> a monitor cancelled before its first step makes \<open>stop()\<close> raise at once (C22);
    \<^item> a failed \<open>Inhibit\<close> is not retried and kills the process (C23, C24);
    \<^item> a malformed joystick property kills the observer thread (C25);
    \<^item> an unreadable gamepad aborts start-up (C26);
    \<^item> \<open>finder.stop()\<close> leaves queued callbacks to run after it returns (C27).
  \<^item> Plug then unplug is a round trip (C28); pending cancellations and done callbacks
    can always be drained (C29, liveness); live monitors are bounded by the tracked
    paths (C30) and \<open>Inhibit\<close> requests by the active windows (C32); \<open>self.tasks\<close>
    holds tasks only once started (C31).
  \<^item> A gamepad add goes end to end from the observer thread, through the loop's queue, to
    a new monitor task (C33).

  \<^bold>\<open>Bounds.\<close> No fuel is needed. Every loop of the source that can run forever is
  modelled over the finite prefix of events that happened: \<open>while True\<close> of the bridge
  over the list of completed windows, ended by the cancellation that stops it; the
  observer thread over the list of netlink events; the event loop over a list of steps.
  \<open>gather\<close> returns \<open>None\<close> while it is still waiting, and C8 proves that the steps the
  loop runs after \<open>stop()\<close>'s cancellations end the wait.

  \<^bold>\<open>Not modelled.\<close>
  \<^item> Log messages.
  \<^item> pyudev, evdev, D-Bus and asyncio themselves: only the behaviour the code relies on
    is written into the definitions that call them. That covers \<open>asbool\<close>, open
    failures, \<open>Task.cancel\<close>, \<open>gather\<close>, and \<open>Inhibit\<close> success or failure.
  \<^item> The 30 s interval: time appears only as the division into windows.
  \<^item> Finalizers: \<open>opened\<close> holds the device objects not closed by an explicit
    \<open>close()\<close>. python-evdev's \<open>InputDevice.__del__\<close> also closes an object once
    nothing references it; no property is stated about objects that no field refers to.
  \<^item> Inside \<open>main_run\<close> the observer thread is taken to run until \<open>finder.stop()\<close>;
    its death on a malformed event is the subject of C25 in \<open>Finder\<close>. The order of
    \<open>main\<close>'s externally visible steps, \<open>sys_trace\<close>, is written down per branch as the
    code performs them rather than derived from a model of the asyncio scheduler.
  \<^item> The thread boundary of \<open>call_soon_threadsafe\<close>: callbacks are loop steps in the
    order the observer produced them (the queue \<open>pending\<close> keeps that order).
  \<^item> The \<open>__main__\<close> entry (\<open>asyncio.run(main())\<close> and the \<open>KeyboardInterrupt\<close>
    handler): how \<open>asyncio.run\<close> turns an interrupt into the cancellation of \<open>main\<close>,
    and whether it re-raises afterwards, depends on the Python version, so this entry
    is not translated; \<open>main_run\<close> takes the cancellation as the end of its windows.
\<close>

end
